theory Spec2Isabelle
  imports Complex_Main "HOL-Library.AList" "HOL-Library.Product_Lexorder"
begin

section \<open>Python values used by the program\<close>

text \<open>
  Exceptions are values. An assertion carries which of the program's three assertions
  failed; the other constructors are the built-in exceptions that list indexing, dictionary
  lookup, \<^verbatim>\<open>list.index\<close>, attribute access on \<^verbatim>\<open>None\<close>, sequence concatenation,
  tuple unpacking and an unassigned local variable raise.
\<close>

datatype assertion =
    JumpAtStart
  | NotCamelStack int
  | CamelNotOnPosition int

datatype place_error =
    PositionOne
  | NonexistentPosition
  | DestinationNotEmpty
  | AdjacentJump

datatype error =
    AssertionError assertion
  | ParseError place_error
  | IndexError
  | KeyError
  | ValueError
  | AttributeError
  | TypeError
  | UnboundLocalError

definition bind_err :: "error + 'a \<Rightarrow> ('a \<Rightarrow> error + 'b) \<Rightarrow> error + 'b" where
  "bind_err r f = (case r of Inl e \<Rightarrow> Inl e | Inr v \<Rightarrow> f v)"

text \<open>\<^verbatim>\<open>xs[i]\<close>: a negative index counts from the end, an index out of range raises.\<close>

definition list_get :: "'a list \<Rightarrow> int \<Rightarrow> error + 'a" where
  "list_get xs i =
     (let n = int (length xs) in
      if 0 \<le> i \<and> i < n then Inr (xs ! nat i)
      else if - n \<le> i \<and> i < 0 then Inr (xs ! nat (n + i))
      else Inl IndexError)"

text \<open>\<^verbatim>\<open>xs[i] = v\<close>, with the same index rules.\<close>

definition list_set :: "'a list \<Rightarrow> int \<Rightarrow> 'a \<Rightarrow> error + 'a list" where
  "list_set xs i v =
     (let n = int (length xs) in
      if 0 \<le> i \<and> i < n then Inr (xs[nat i := v])
      else if - n \<le> i \<and> i < 0 then Inr (xs[nat (n + i) := v])
      else Inl IndexError)"

text \<open>\<^verbatim>\<open>xs.index(x)\<close>: the position of the first occurrence, or \<^verbatim>\<open>ValueError\<close>.\<close>

definition list_index :: "'a list \<Rightarrow> 'a \<Rightarrow> error + nat" where
  "list_index xs x =
     (if x \<in> set xs then Inr (length (takeWhile (\<lambda>y. y \<noteq> x) xs)) else Inl ValueError)"

text \<open>
  A dictionary is the list of its items in insertion order, keys distinct. \<^verbatim>\<open>d[k]\<close> raises
  \<^verbatim>\<open>KeyError\<close> on a missing key; \<^verbatim>\<open>d[k] = v\<close> is \<^const>\<open>AList.update\<close>, which overwrites
  in place or appends a new key at the end, as Python does.
\<close>

definition dict_get :: "('k \<times> 'v) list \<Rightarrow> 'k \<Rightarrow> error + 'v" where
  "dict_get d k = (case map_of d k of None \<Rightarrow> Inl KeyError | Some v \<Rightarrow> Inr v)"

section \<open>board.py\<close>

datatype Camel = Yellow | White | Blue | Orange | Green

text \<open>\<^verbatim>\<open>list(Camel)\<close>: the members in definition order.\<close>

definition all_camels :: "Camel list" where
  "all_camels = [Yellow, White, Blue, Orange, Green]"

datatype Jump = Forward | Backwards

fun jump_value :: "Jump \<Rightarrow> int" where
  "jump_value Forward = 1"
| "jump_value Backwards = - 1"

datatype Move = Move (camel: Camel) (steps: int)

text \<open>
  A field is \<^verbatim>\<open>None\<close>, a list of camels (bottom first) or a \<^verbatim>\<open>JumpField(jtype, owner)\<close>.
  The owner is any Python value, \<^verbatim>\<open>None\<close> included; owners are player identities of
  type \<open>'o\<close> and never camels.
\<close>

datatype 'o BoardField =
    EmptyField
  | CamelStack "Camel list"
  | JumpField Jump "'o option"

datatype 'o Board = Board (fields: "'o BoardField list") (index: "(Camel \<times> int) list")

definition BOARD_SIZE :: int where
  "BOARD_SIZE = 16"

definition create_empty_board :: "'o Board" where
  "create_empty_board = Board (replicate 16 EmptyField) []"

text \<open>
  \<^verbatim>\<open>field.index(camel)\<close> on a field: \<^verbatim>\<open>None\<close> has no such attribute; a list searches
  itself; a \<^verbatim>\<open>JumpField\<close> is a tuple, whose \<^verbatim>\<open>index\<close> searches \<^verbatim>\<open>(jtype, owner)\<close> and
  finds no camel there.
\<close>

fun field_index :: "'o BoardField \<Rightarrow> Camel \<Rightarrow> error + nat" where
  "field_index EmptyField c = Inl AttributeError"
| "field_index (CamelStack s) c = list_index s c"
| "field_index (JumpField j ow) c = Inl ValueError"

text \<open>
  \<^verbatim>\<open>field[height:]\<close> and \<^verbatim>\<open>field[:height]\<close> are only reached after \<^verbatim>\<open>field.index\<close>
  returned, so the field is a list.
\<close>

fun field_stack :: "'o BoardField \<Rightarrow> Camel list" where
  "field_stack (CamelStack s) = s"
| "field_stack _ = []"

text \<open>\<^verbatim>\<open>sliced_stack or None\<close>.\<close>

definition stack_or_none :: "Camel list \<Rightarrow> 'o BoardField" where
  "stack_or_none s = (if s = [] then EmptyField else CamelStack s)"

text \<open>\<^verbatim>\<open>for camel in move_stack: board.index[camel] += d\<close>.\<close>

fun advance :: "(Camel \<times> int) list \<Rightarrow> Camel list \<Rightarrow> int \<Rightarrow> error + (Camel \<times> int) list" where
  "advance idx [] d = Inr idx"
| "advance idx (c # cs) d =
     (case map_of idx c of
        None \<Rightarrow> Inl KeyError
      | Some p \<Rightarrow> advance (AList.update c (p + d) idx) cs d)"

text \<open>
  \<^verbatim>\<open>validate_board\<close>: the loop over the index items; the first failing assertion (or
  index error) is raised.
\<close>

fun validate_items :: "'o BoardField list \<Rightarrow> (Camel \<times> int) list \<Rightarrow> error + unit" where
  "validate_items fs [] = Inr ()"
| "validate_items fs ((c, pos) # rest) =
     (if pos \<ge> BOARD_SIZE then validate_items fs rest
      else bind_err (list_get fs pos) (\<lambda>f.
        case f of
          CamelStack s \<Rightarrow>
            (if c \<in> set s then validate_items fs rest
             else Inl (AssertionError (CamelNotOnPosition (pos + 1))))
        | _ \<Rightarrow> Inl (AssertionError (NotCamelStack (pos + 1)))))"

definition validate_board :: "'o Board \<Rightarrow> error + unit" where
  "validate_board b = validate_items (fields b) (index b)"

text \<open>\<^verbatim>\<open>copy_board\<close> copies every list; values have no identity here.\<close>

definition copy_board :: "'o Board \<Rightarrow> 'o Board" where
  "copy_board b = Board (fields b) (index b)"

text \<open>
  Lines 147--151, the merge on top: \<^verbatim>\<open>board.fields[end_pos] += move_stack\<close> extends a
  list and raises \<^verbatim>\<open>TypeError\<close> on a \<^verbatim>\<open>JumpField\<close> tuple.
\<close>

definition merge_top ::
  "'o BoardField list \<Rightarrow> int \<Rightarrow> Camel list \<Rightarrow> error + 'o BoardField list" where
  "merge_top fs end_pos move_stack =
     bind_err (list_get fs end_pos) (\<lambda>f.
       case f of
         EmptyField \<Rightarrow> list_set fs end_pos (CamelStack move_stack)
       | CamelStack s \<Rightarrow> list_set fs end_pos (CamelStack (s @ move_stack))
       | JumpField j ow \<Rightarrow> Inl TypeError)"

text \<open>
  Lines 141--144, the merge beneath: \<^verbatim>\<open>move_stack + board.fields[end_pos]\<close> raises
  \<^verbatim>\<open>TypeError\<close> on a \<^verbatim>\<open>JumpField\<close> tuple.
\<close>

definition merge_beneath ::
  "'o BoardField list \<Rightarrow> int \<Rightarrow> Camel list \<Rightarrow> error + 'o BoardField list" where
  "merge_beneath fs end_pos move_stack =
     bind_err (list_get fs end_pos) (\<lambda>f.
       case f of
         EmptyField \<Rightarrow> list_set fs end_pos (CamelStack move_stack)
       | CamelStack s \<Rightarrow> list_set fs end_pos (CamelStack (move_stack @ s))
       | JumpField j ow \<Rightarrow> Inl TypeError)"

text \<open>The body of \<^verbatim>\<open>apply_move\<close>, lines 107--151.\<close>

definition apply_move_body ::
  "'o Board \<Rightarrow> Move \<Rightarrow> error + ('o Board \<times> 'o option \<times> Camel list option)" where
  "apply_move_body b0 m =
     (let b = copy_board b0 in
      case map_of (index b) (camel m) of
        None \<Rightarrow>
          (let pos = steps m - 1;
               idx = AList.update (camel m) pos (index b) in
           bind_err (list_get (fields b) pos) (\<lambda>field.
             case field of
               JumpField j ow \<Rightarrow> Inl (AssertionError JumpAtStart)
             | CamelStack s \<Rightarrow>
                 bind_err (list_set (fields b) pos (CamelStack (s @ [camel m]))) (\<lambda>fs.
                   Inr (Board fs idx, None, None))
             | EmptyField \<Rightarrow>
                 bind_err (list_set (fields b) pos (CamelStack [camel m])) (\<lambda>fs.
                   Inr (Board fs idx, None, None))))
      | Some start_pos \<Rightarrow>
          bind_err (list_get (fields b) start_pos) (\<lambda>start_field.
          bind_err (field_index start_field (camel m)) (\<lambda>height.
            let move_stack = drop height (field_stack start_field);
                sliced_stack = take height (field_stack start_field) in
            bind_err (list_set (fields b) start_pos (stack_or_none sliced_stack)) (\<lambda>fs.
            bind_err (advance (index b) move_stack (steps m)) (\<lambda>idx.
              let end_pos = start_pos + steps m in
              if end_pos \<ge> BOARD_SIZE then Inr (Board fs idx, None, Some move_stack)
              else
                bind_err (list_get fs end_pos) (\<lambda>dest_field.
                  case dest_field of
                    JumpField jtype owner \<Rightarrow>
                      (let shift = jump_value jtype;
                           end_pos' = end_pos + shift in
                       bind_err (advance idx move_stack shift) (\<lambda>idx'.
                         if end_pos' \<ge> BOARD_SIZE
                         then Inr (Board fs idx', owner, Some move_stack)
                         else if shift = - 1 then
                           bind_err (merge_beneath fs end_pos' move_stack) (\<lambda>fs'.
                             Inr (Board fs' idx', owner, None))
                         else
                           bind_err (merge_top fs end_pos' move_stack) (\<lambda>fs'.
                             Inr (Board fs' idx', owner, None))))
                  | _ \<Rightarrow>
                      bind_err (merge_top fs end_pos move_stack) (\<lambda>fs'.
                        Inr (Board fs' idx, None, None))))))))"

text \<open>\<^verbatim>\<open>@validates_board(0)\<close>: the returned board is validated before it is returned.\<close>

definition apply_move ::
  "'o Board \<Rightarrow> Move \<Rightarrow> error + ('o Board \<times> 'o option \<times> Camel list option)" where
  "apply_move b m =
     bind_err (apply_move_body b m) (\<lambda>res.
       bind_err (validate_board (fst res)) (\<lambda>_. Inr res))"

text \<open>
  \<^verbatim>\<open>sorted(xs, key=key, reverse=True)\<close>: a stable sort of the reversed list, reversed
  again, so that items with equal keys keep their order. Keys are pairs of integers,
  compared lexicographically.
\<close>

definition sorted_reverse :: "('a \<Rightarrow> int \<times> int) \<Rightarrow> 'a list \<Rightarrow> 'a list" where
  "sorted_reverse key xs = rev (sort_key key (rev xs))"

text \<open>
  One element of the list comprehension of \<^verbatim>\<open>get_rankings\<close>:
  \<^verbatim>\<open>(camel, (index, (board.fields[index] if index < BOARD_SIZE else winners).index(camel)))\<close>.
  \<^verbatim>\<open>winners\<close> may be \<^verbatim>\<open>None\<close>, which has no \<^verbatim>\<open>index\<close> attribute.
\<close>

definition ranking_item ::
  "'o Board \<Rightarrow> Camel list option \<Rightarrow> Camel \<times> int \<Rightarrow> error + (Camel \<times> (int \<times> int))" where
  "ranking_item b winners ci =
     (let c = fst ci; i = snd ci in
      if i < BOARD_SIZE then
        bind_err (list_get (fields b) i) (\<lambda>f.
        bind_err (field_index f c) (\<lambda>h. Inr (c, (i, int h))))
      else
        (case winners of
           None \<Rightarrow> Inl AttributeError
         | Some ws \<Rightarrow> bind_err (list_index ws c) (\<lambda>h. Inr (c, (i, int h)))))"

text \<open>A list comprehension whose element expression may raise: the first error wins.\<close>

fun map_err :: "('a \<Rightarrow> error + 'b) \<Rightarrow> 'a list \<Rightarrow> error + 'b list" where
  "map_err f [] = Inr []"
| "map_err f (x # xs) =
     bind_err (f x) (\<lambda>y. bind_err (map_err f xs) (\<lambda>ys. Inr (y # ys)))"

definition get_rankings :: "'o Board \<Rightarrow> Camel list option \<Rightarrow> error + Camel list" where
  "get_rankings b winners =
     bind_err (map_err (ranking_item b winners) (index b)) (\<lambda>unsorted_camels.
       Inr (map fst (sorted_reverse snd unsorted_camels)))"

section \<open>game.py\<close>

datatype BetSize = Low | Med | High

fun bet_value :: "BetSize \<Rightarrow> int" where
  "bet_value Low = 2"
| "bet_value Med = 3"
| "bet_value High = 5"

datatype Bet = Bet (bet_size: BetSize) (bet_camel: Camel)

text \<open>
  A player's \<^verbatim>\<open>owned_bets\<close> is a Python set; it is the list of its members in
  iteration order. The same holds for \<^verbatim>\<open>camels_left\<close>.
\<close>

datatype Player = Player (balance: int) (owned_bets: "Bet list")

datatype 'o Game = Game
  (board: "'o Board")
  (players: "('o \<times> Player) list")
  (bets: "(Camel \<times> BetSize list) list")
  (camels_left: "Camel list")

datatype Place = Place (position: int) (jump: Jump)

datatype Action = MoveAction Move | PlaceAction Place | BetAction Camel

text \<open>The owner of an action is a player name or \<^verbatim>\<open>None\<close>; \<^verbatim>\<open>None\<close> is no player.\<close>

datatype 'o OwnedAction = OwnedAction (owner: "'o option") (action: Action)

definition reset_bets :: "(Camel \<times> BetSize list) list" where
  "reset_bets = map (\<lambda>c. (c, [Low, Med, High])) all_camels"

definition change_balance ::
  "('o \<times> Player) list \<Rightarrow> 'o option \<Rightarrow> int \<Rightarrow> error + ('o \<times> Player) list" where
  "change_balance ps name delta =
     (case name of
        None \<Rightarrow> Inl KeyError
      | Some n \<Rightarrow>
          bind_err (dict_get ps n) (\<lambda>p.
            Inr (AList.update n (Player (max (balance p + delta) 0) (owned_bets p)) ps)))"

text \<open>The inner loop of \<^verbatim>\<open>evaluate_bets\<close> over one player's bets.\<close>

fun net_win :: "Camel \<Rightarrow> Camel \<Rightarrow> Bet list \<Rightarrow> int \<Rightarrow> int" where
  "net_win fst_c snd_c [] acc = acc"
| "net_win fst_c snd_c (bet # rest) acc =
     (if fst_c = bet_camel bet then net_win fst_c snd_c rest (acc + bet_value (bet_size bet))
      else if snd_c = bet_camel bet then net_win fst_c snd_c rest (acc + 1)
      else net_win fst_c snd_c rest (acc - 1))"

text \<open>The outer loop: the items of \<^verbatim>\<open>game.players\<close>, updating the dictionary as it goes.\<close>

fun settle_players ::
  "Camel \<Rightarrow> Camel \<Rightarrow> ('o \<times> Player) list \<Rightarrow> ('o \<times> Player) list \<Rightarrow> error + ('o \<times> Player) list" where
  "settle_players fst_c snd_c [] ps = Inr ps"
| "settle_players fst_c snd_c (item # items) ps =
     bind_err (change_balance ps (Some (fst item)) (net_win fst_c snd_c (owned_bets (snd item)) 0))
       (settle_players fst_c snd_c items)"

definition clear_jumps :: "'o BoardField list \<Rightarrow> 'o BoardField list" where
  "clear_jumps fs = map (\<lambda>f. case f of JumpField j ow \<Rightarrow> EmptyField | _ \<Rightarrow> f) fs"

definition evaluate_bets :: "'o Game \<Rightarrow> 'o Board \<Rightarrow> error + 'o Game" where
  "evaluate_bets g b =
     bind_err (get_rankings b None) (\<lambda>ranking.
       case ranking of
         fst_c # snd_c # rest \<Rightarrow>
           bind_err (settle_players fst_c snd_c (players g) (players g)) (\<lambda>ps.
             Inr (Game (Board (clear_jumps (fields b)) (index b))
                       (map (\<lambda>np. (fst np, Player (balance (snd np)) [])) ps)
                       reset_bets
                       all_camels))
       | _ \<Rightarrow> Inl ValueError)"

definition apply_action :: "'o Game \<Rightarrow> 'o OwnedAction \<Rightarrow> error + ('o Game \<times> Camel list option)" where
  "apply_action g oa =
     (case action oa of
        MoveAction m \<Rightarrow>
          bind_err
            (if \<not> (owner oa = None \<and> camel m \<in> set (camels_left g))
             then change_balance (players g) (owner oa) 1
             else Inr (players g)) (\<lambda>ps.
          bind_err (apply_move (board g) m) (\<lambda>res.
            let b = fst res; shifter = fst (snd res); winner = snd (snd res) in
            bind_err
              (if shifter \<noteq> None then change_balance ps shifter 1 else Inr ps) (\<lambda>ps'.
              let left = removeAll (camel m) (camels_left g) in
              if left \<noteq> [] then Inr (Game b ps' (bets g) left, winner)
              else bind_err (evaluate_bets (Game (board g) ps' (bets g) (camels_left g)) b)
                     (\<lambda>g'. Inr (g', winner)))))
      | PlaceAction p \<Rightarrow>
          bind_err (list_set (fields (board g)) (position p) (JumpField (jump p) (owner oa)))
            (\<lambda>fs. Inr (Game (Board fs (index (board g))) (players g) (bets g) (camels_left g),
                        None))
      | BetAction c \<Rightarrow>
          (case owner oa of
             None \<Rightarrow> Inl KeyError
           | Some n \<Rightarrow>
               bind_err (dict_get (players g) n) (\<lambda>p.
               bind_err (dict_get (bets g) c) (\<lambda>pool.
                 if pool = [] then Inl IndexError
                 else Inr (Game (board g)
                             (AList.update n
                                (Player (balance p) (List.insert (Bet (last pool) c) (owned_bets p)))
                                (players g))
                             (AList.update c (butlast pool) (bets g))
                             (camels_left g),
                           None)))))"

section \<open>main.py\<close>

text \<open>
  \<^verbatim>\<open>parse_place\<close> after its regular expression has matched: \<open>sign\<close> is the jump the
  sign character denotes and \<open>num\<close> the one- or two-digit number.
\<close>

definition parse_place :: "'o Game \<Rightarrow> Jump \<Rightarrow> nat \<Rightarrow> error + Place" where
  "parse_place g sign num =
     (let pos = int num - 1 in
      if pos = 0 then Inl (ParseError PositionOne)
      else if \<not> (0 \<le> pos \<and> pos < 16) then Inl (ParseError NonexistentPosition)
      else
        bind_err (list_get (fields (board g)) pos) (\<lambda>f.
          if f \<noteq> EmptyField then Inl (ParseError DestinationNotEmpty)
          else
            bind_err (list_get (fields (board g)) (pos - 1)) (\<lambda>l.
            bind_err (case l of
                        JumpField j ow \<Rightarrow> Inr True
                      | _ \<Rightarrow>
                          if pos \<noteq> 15
                          then bind_err (list_get (fields (board g)) (pos + 1)) (\<lambda>r.
                                 Inr (case r of JumpField j ow \<Rightarrow> True | _ \<Rightarrow> False))
                          else Inr False) (\<lambda>adjacent.
              if adjacent then Inl (ParseError AdjacentJump)
              else Inr (Place pos sign)))))"

text \<open>The \<^verbatim>\<open>rank\<close> command of \<^verbatim>\<open>parse_action\<close>: the ranking it prints, line by line.\<close>

definition rank_command :: "'o Game \<Rightarrow> error + Camel list" where
  "rank_command g = get_rankings (board g) None"

text \<open>
  \<^verbatim>\<open>itertools.permutations\<close>: every ordering of the positions, in lexicographic order of
  the positions.
\<close>

fun remove_nth :: "nat \<Rightarrow> 'a list \<Rightarrow> 'a list" where
  "remove_nth i xs = take i xs @ drop (Suc i) xs"

function permutations :: "'a list \<Rightarrow> 'a list list" where
  "permutations xs =
     (if xs = [] then [[]]
      else concat (map (\<lambda>i. map ((#) (xs ! i)) (permutations (remove_nth i xs)))
                       [0..<length xs]))"
  by pat_completeness auto
termination
  by (relation "measure length") auto

text \<open>
  The five accumulators of \<^verbatim>\<open>simulate_probs\<close> (each a \<^verbatim>\<open>defaultdict(float)\<close>, here with
  exact rationals), and the local variable \<^verbatim>\<open>winner_stack\<close>, which is unbound until the
  first \<^verbatim>\<open>apply_move\<close> returns and keeps its value from one combination to the next.
\<close>

datatype 'o Sim = Sim
  (fst_p: "Camel \<Rightarrow> rat")
  (snd_p: "Camel \<Rightarrow> rat")
  (winners: "Camel \<Rightarrow> rat")
  (losers: "Camel \<Rightarrow> rat")
  (shifts: "'o \<Rightarrow> rat")
  (winner_stack: "Camel list option option")

definition bump :: "('k \<Rightarrow> rat) \<Rightarrow> 'k \<Rightarrow> rat \<Rightarrow> ('k \<Rightarrow> rat)" where
  "bump d k w = d(k := d k + w)"

definition total_paths :: "nat \<Rightarrow> nat" where
  "total_paths n = fold (\<lambda>i t. t * (3 * i)) [1..<n + 1] 1"

text \<open>The loop over the moves of one combination, with its \<^verbatim>\<open>break\<close>.\<close>

fun run_moves ::
  "'o Board \<Rightarrow> ('o \<Rightarrow> rat) \<Rightarrow> Camel list option option \<Rightarrow> rat \<Rightarrow> (Camel \<times> int) list \<Rightarrow>
   error + ('o Board \<times> ('o \<Rightarrow> rat) \<times> Camel list option option)" where
  "run_moves sub_board sh ws w [] = Inr (sub_board, sh, ws)"
| "run_moves sub_board sh ws w (mv # rest) =
     bind_err (apply_move sub_board (Move (fst mv) (snd mv))) (\<lambda>res.
       let b = fst res; shifter = fst (snd res); winner = snd (snd res);
           sh' = (case shifter of None \<Rightarrow> sh | Some ow \<Rightarrow> bump sh ow w) in
       if winner \<noteq> None then Inr (b, sh', Some winner)
       else run_moves b sh' (Some winner) w rest)"

text \<open>The body of the two nested loops, for one ordering and one assignment of steps.\<close>

definition simulate_combination ::
  "'o Game \<Rightarrow> rat \<Rightarrow> Camel list \<times> int list \<Rightarrow> 'o Sim \<Rightarrow> error + 'o Sim" where
  "simulate_combination g w combo st =
     bind_err (run_moves (copy_board (board g)) (shifts st) (winner_stack st) w
                 (zip (fst combo) (snd combo))) (\<lambda>res.
       let sub_board = fst res; sh = fst (snd res); ws = snd (snd res) in
       case ws of
         None \<Rightarrow> Inl UnboundLocalError
       | Some winner \<Rightarrow>
           bind_err (get_rankings sub_board winner) (\<lambda>ranking.
             case ranking of
               [fst_camel, snd_camel, c3, c4, lst_camel] \<Rightarrow>
                 Inr (Sim (bump (fst_p st) fst_camel w)
                          (bump (snd_p st) snd_camel w)
                          (if winner \<noteq> None then bump (winners st) fst_camel w else winners st)
                          (if winner \<noteq> None then bump (losers st) lst_camel w else losers st)
                          sh
                          ws)
             | _ \<Rightarrow> Inl ValueError))"

fun fold_err :: "('a \<Rightarrow> 's \<Rightarrow> error + 's) \<Rightarrow> 'a list \<Rightarrow> 's \<Rightarrow> error + 's" where
  "fold_err f [] s = Inr s"
| "fold_err f (x # xs) s = bind_err (f x s) (fold_err f xs)"

text \<open>
  The combinations in the order the nested loops visit them:
  \<^verbatim>\<open>permutations(camels_left)\<close> outside, \<^verbatim>\<open>product(range(1, 4), ...)\<close> inside.
\<close>

definition combinations :: "Camel list \<Rightarrow> (Camel list \<times> int list) list" where
  "combinations cl =
     List.product (permutations cl) (product_lists (replicate (length cl) [1, 2, 3]))"

definition simulate_probs :: "'o Game \<Rightarrow> error + 'o Sim" where
  "simulate_probs g =
     (let w = 1 / of_nat (total_paths (length (camels_left g))) in
      fold_err (simulate_combination g w) (combinations (camels_left g))
        (Sim (\<lambda>c. 0) (\<lambda>c. 0) (\<lambda>c. 0) (\<lambda>c. 0) (\<lambda>ow. 0) None))"

section \<open>The track invariants\<close>

text \<open>
  An index item is on the track when its position is not negative and, below 16, names a
  field whose stack holds the camel.
\<close>

definition on_track :: "'o BoardField list \<Rightarrow> Camel \<times> int \<Rightarrow> bool" where
  "on_track fs cp =
     (0 \<le> snd cp \<and> (snd cp < 16 \<longrightarrow> fst cp \<in> set (field_stack (fs ! nat (snd cp)))))"

text \<open>
  A stack on field \<open>i\<close> is in order when it is not empty, holds no camel twice and the
  index records field \<open>i\<close> for each of its camels.
\<close>

definition stack_ok :: "(Camel \<times> int) list \<Rightarrow> nat \<Rightarrow> 'o BoardField \<Rightarrow> bool" where
  "stack_ok idx i f =
     (case f of
        CamelStack s \<Rightarrow> s \<noteq> [] \<and> distinct s \<and> (\<forall>c \<in> set s. map_of idx c = Some (int i))
      | _ \<Rightarrow> True)"

text \<open>
  Stacks and index agree: sixteen fields, a dictionary as index, every indexed camel on
  the track, every stack in order.
\<close>

definition wf_stacks :: "'o Board \<Rightarrow> bool" where
  "wf_stacks b =
     (length (fields b) = 16 \<and> distinct (map fst (index b)) \<and>
      (\<forall>cp \<in> set (index b). on_track (fields b) cp) \<and>
      (\<forall>i \<in> set [0..<16]. stack_ok (index b) i (fields b ! i)))"

fun is_jump :: "'o BoardField \<Rightarrow> bool" where
  "is_jump (JumpField j ow) = True"
| "is_jump _ = False"

text \<open>No two neighbouring fields both hold a tile.\<close>

definition tiles_apart :: "'o BoardField list \<Rightarrow> bool" where
  "tiles_apart fs = (\<forall>i \<in> set [0..<15]. \<not> (is_jump (fs ! i) \<and> is_jump (fs ! Suc i)))"

text \<open>A well-formed board: stacks and index agree and tiles keep apart.\<close>

definition wf_board :: "'o Board \<Rightarrow> bool" where
  "wf_board b = (wf_stacks b \<and> tiles_apart (fields b))"

text \<open>
  The weaker reading of well-formedness: every indexed camel with position below 16 occurs
  in exactly one stack, the one on the field of its position. Nothing is said about camels
  that stand in a stack without being indexed.
\<close>

definition stacks_holding :: "'o BoardField list \<Rightarrow> Camel \<Rightarrow> nat list" where
  "stacks_holding fs c = filter (\<lambda>i. c \<in> set (field_stack (fs ! i))) [0..<length fs]"

definition indexed_in_one_stack :: "'o Board \<Rightarrow> bool" where
  "indexed_in_one_stack b =
     (\<forall>cp \<in> set (index b). snd cp < 16 \<longrightarrow>
        0 \<le> snd cp \<and> stacks_holding (fields b) (fst cp) = [nat (snd cp)])"

section \<open>Vocabulary of a move\<close>

text \<open>The stack the camel stands in, by the index; empty when the camel is not on a stack.\<close>

definition origin_stack :: "'o Board \<Rightarrow> Camel \<Rightarrow> Camel list" where
  "origin_stack b c =
     (case map_of (index b) c of
        None \<Rightarrow> []
      | Some p \<Rightarrow> field_stack (fields b ! nat p))"

definition height :: "'o Board \<Rightarrow> Camel \<Rightarrow> nat" where
  "height b c = length (takeWhile (\<lambda>y. y \<noteq> c) (origin_stack b c))"

text \<open>The camel and every camel above it, bottom first; and the camels below it.\<close>

definition carried_group :: "'o Board \<Rightarrow> Camel \<Rightarrow> Camel list" where
  "carried_group b c = drop (height b c) (origin_stack b c)"

definition left_behind :: "'o Board \<Rightarrow> Camel \<Rightarrow> Camel list" where
  "left_behind b c = take (height b c) (origin_stack b c)"

text \<open>The shift of the tile on field \<open>e\<close>, if there is one.\<close>

definition tile_shift :: "'o Board \<Rightarrow> int \<Rightarrow> int" where
  "tile_shift b e =
     (if 0 \<le> e \<and> e < 16
      then (case fields b ! nat e of JumpField j ow \<Rightarrow> jump_value j | _ \<Rightarrow> 0)
      else 0)"

text \<open>The final landing position of a group that starts on \<open>p\<close> and moves \<open>n\<close> steps.\<close>

definition landing :: "'o Board \<Rightarrow> int \<Rightarrow> int \<Rightarrow> int" where
  "landing b p n = p + n + tile_shift b (p + n)"

text \<open>The index after the camels \<open>cs\<close> have advanced by \<open>d\<close>.\<close>

definition shift_index :: "(Camel \<times> int) list \<Rightarrow> Camel list \<Rightarrow> int \<Rightarrow> (Camel \<times> int) list" where
  "shift_index idx cs d =
     map (\<lambda>cp. (fst cp, if fst cp \<in> set cs then snd cp + d else snd cp)) idx"

text \<open>The fields once the carried group of \<open>c\<close> has been taken off field \<open>p\<close>.\<close>

definition lifted_fields :: "'o Board \<Rightarrow> Camel \<Rightarrow> int \<Rightarrow> 'o BoardField list" where
  "lifted_fields b c p = (fields b)[nat p := stack_or_none (left_behind b c)]"

definition lifted :: "'o BoardField list \<Rightarrow> (Camel \<times> int) list \<Rightarrow> Camel list \<Rightarrow> int \<Rightarrow> bool" where
  "lifted fs idx cs e =
     (length fs = 16 \<and> distinct (map fst idx) \<and> cs \<noteq> [] \<and> distinct cs \<and> 0 \<le> e \<and>
      (\<forall>c \<in> set cs. map_of idx c = Some e) \<and>
      (\<forall>cp \<in> set idx. fst cp \<notin> set cs \<longrightarrow> on_track fs cp) \<and>
      (\<forall>i \<in> set [0..<16]. stack_ok idx i (fs ! i) \<and> set (field_stack (fs ! i)) \<inter> set cs = {}))"

text \<open>The owner of the tile on field \<open>e\<close>, if there is a tile.\<close>

definition tile_owner :: "'o Board \<Rightarrow> int \<Rightarrow> 'o option" where
  "tile_owner b e =
     (if 0 \<le> e \<and> e < 16
      then (case fields b ! nat e of JumpField j ow \<Rightarrow> ow | _ \<Rightarrow> None)
      else None)"

text \<open>
  The fields after the move of the group of \<open>c\<close> from field \<open>p\<close> by \<open>n\<close> steps: the
  group is taken off; unless it leaves the track it is put on its landing field, beneath
  the stack there after a Backwards tile and on top of it otherwise.
\<close>

definition landed_fields :: "'o Board \<Rightarrow> Camel \<Rightarrow> int \<Rightarrow> int \<Rightarrow> 'o BoardField list" where
  "landed_fields b c p n =
     (let fs = lifted_fields b c p;
          e = landing b p n;
          cs = carried_group b c;
          occ = field_stack (fs ! nat e)
      in if 16 \<le> e then fs
         else fs[nat e := CamelStack (if tile_shift b (p + n) = - 1 then cs @ occ else occ @ cs)])"

text \<open>
  The settlement in the words of the rules: what one wager pays, and a player after the
  round.
\<close>

definition payoff :: "Camel \<Rightarrow> Camel \<Rightarrow> Bet \<Rightarrow> int" where
  "payoff first second bet =
     (if bet_camel bet = first then bet_value (bet_size bet)
      else if bet_camel bet = second then 1
      else - 1)"

definition settled_player :: "Camel \<Rightarrow> Camel \<Rightarrow> Player \<Rightarrow> Player" where
  "settled_player first second pl =
     Player (max (balance pl + sum_list (map (payoff first second) (owned_bets pl))) 0) []"

section \<open>Dictionaries and the index loop\<close>

lemma bind_err_Inr [simp]: "bind_err (Inr v) f = f v"
  by (simp add: bind_err_def)

lemma bind_err_Inl [simp]: "bind_err (Inl e) f = Inl e"
  by (simp add: bind_err_def)

lemma bind_err_eq_Inr:
  "bind_err r f = Inr y \<longleftrightarrow> (\<exists>v. r = Inr v \<and> f v = Inr y)"
  by (cases r) simp_all

lemma list_get_in_range [simp]:
  "0 \<le> i \<Longrightarrow> i < int (length xs) \<Longrightarrow> list_get xs i = Inr (xs ! nat i)"
  by (simp add: list_get_def)

lemma list_set_in_range [simp]:
  "0 \<le> i \<Longrightarrow> i < int (length xs) \<Longrightarrow> list_set xs i v = Inr (xs[nat i := v])"
  by (simp add: list_set_def)

lemma list_get_beyond [simp]:
  "int (length xs) \<le> i \<Longrightarrow> list_get xs i = Inl IndexError"
  by (simp add: list_get_def)

lemma map_fst_shift_index [simp]: "map fst (shift_index idx cs d) = map fst idx"
  by (simp add: shift_index_def comp_def)

lemma map_of_shift_index:
  "map_of (shift_index idx cs d) c =
     (if c \<in> set cs then map_option (\<lambda>p. p + d) (map_of idx c) else map_of idx c)"
  by (induction idx) (auto simp: shift_index_def)

lemma shift_index_twice: "shift_index (shift_index idx cs d) cs e = shift_index idx cs (d + e)"
  by (simp add: shift_index_def)

lemma update_distinct_map:
  "distinct (map fst idx) \<Longrightarrow> map_of idx c = Some p \<Longrightarrow>
   AList.update c v idx = map (\<lambda>cp. (fst cp, if fst cp = c then v else snd cp)) idx"
proof (induction idx)
  case Nil
  then show ?case by simp
next
  case (Cons a idx)
  show ?case
  proof (cases "fst a = c")
    case True
    with Cons.prems have "c \<notin> fst ` set idx" by auto
    then have "map (\<lambda>cp. (fst cp, if fst cp = c then v else snd cp)) idx = idx"
      by (intro map_idI) (auto simp: rev_image_eqI)
    with True show ?thesis by simp
  next
    case False
    with Cons show ?thesis by simp
  qed
qed

lemma advance_shift_index:
  "distinct (map fst idx) \<Longrightarrow> distinct cs \<Longrightarrow> \<forall>c \<in> set cs. map_of idx c \<noteq> None \<Longrightarrow>
   advance idx cs d = Inr (shift_index idx cs d)"
proof (induction cs arbitrary: idx)
  case Nil
  then show ?case by (simp add: shift_index_def)
next
  case (Cons c cs)
  from Cons.prems obtain p where p: "map_of idx c = Some p" by auto
  let ?idx = "AList.update c (p + d) idx"
  have d: "distinct (map fst ?idx)" using Cons.prems(1) by (rule distinct_update)
  have "\<forall>x \<in> set cs. map_of ?idx x \<noteq> None"
    using Cons.prems(3) by (simp add: update_conv')
  with Cons.IH[OF d] Cons.prems(2) have "advance ?idx cs d = Inr (shift_index ?idx cs d)" by simp
  moreover have "shift_index ?idx cs d = shift_index idx (c # cs) d"
  proof -
    have "?idx = map (\<lambda>cp. (fst cp, if fst cp = c then p + d else snd cp)) idx"
      using Cons.prems(1) p by (rule update_distinct_map)
    moreover have "\<forall>cp \<in> set idx. fst cp = c \<longrightarrow> snd cp = p"
      using Cons.prems(1) p by (auto dest: map_of_SomeD simp: eq_key_imp_eq_value)
    ultimately show ?thesis using Cons.prems(2)
      by (auto simp: shift_index_def)
  qed
  ultimately show ?case using p by simp
qed

lemma wf_stacks_length: "wf_stacks b \<Longrightarrow> length (fields b) = 16"
  by (simp add: wf_stacks_def)

lemma wf_stacks_distinct: "wf_stacks b \<Longrightarrow> distinct (map fst (index b))"
  by (simp add: wf_stacks_def)

lemma wf_stacks_pos:
  "wf_stacks b \<Longrightarrow> map_of (index b) c = Some p \<Longrightarrow> 0 \<le> p"
  by (auto simp: wf_stacks_def on_track_def dest!: map_of_SomeD)

lemma wf_stacks_member:
  "wf_stacks b \<Longrightarrow> map_of (index b) c = Some p \<Longrightarrow> p < 16 \<Longrightarrow>
   c \<in> set (field_stack (fields b ! nat p))"
  by (auto simp: wf_stacks_def on_track_def dest!: map_of_SomeD)

lemma wf_stacks_stack:
  "wf_stacks b \<Longrightarrow> i < 16 \<Longrightarrow> fields b ! i = CamelStack s \<Longrightarrow>
   s \<noteq> [] \<and> distinct s \<and> (\<forall>c \<in> set s. map_of (index b) c = Some (int i))"
proof -
  assume w: "wf_stacks b" "i < 16" and f: "fields b ! i = CamelStack s"
  from w have "stack_ok (index b) i (fields b ! i)" by (simp add: wf_stacks_def)
  with f show ?thesis by (simp add: stack_ok_def)
qed

lemma field_stack_eq: "c \<in> set (field_stack f) \<Longrightarrow> f = CamelStack (field_stack f)"
  by (cases f) auto

lemma wf_stacks_origin:
  assumes "wf_stacks b" "map_of (index b) c = Some p" "p < 16"
  shows "fields b ! nat p = CamelStack (origin_stack b c)" "c \<in> set (origin_stack b c)"
    "distinct (origin_stack b c)"
    "\<forall>x \<in> set (origin_stack b c). map_of (index b) x = Some p"
proof -
  have p0: "0 \<le> p" using assms by (auto dest: wf_stacks_pos)
  have m: "c \<in> set (field_stack (fields b ! nat p))" using assms by (rule wf_stacks_member)
  show 1: "fields b ! nat p = CamelStack (origin_stack b c)"
    using field_stack_eq[OF m] assms(2) by (simp add: origin_stack_def)
  show "c \<in> set (origin_stack b c)" using m assms(2) by (simp add: origin_stack_def)
  have "nat p < 16" using assms(3) p0 by simp
  from wf_stacks_stack[OF assms(1) this 1] p0
  show "distinct (origin_stack b c)" "\<forall>x \<in> set (origin_stack b c). map_of (index b) x = Some p"
    by simp_all
qed

lemma carried_split:
  "left_behind b c @ carried_group b c = origin_stack b c"
  by (simp add: left_behind_def carried_group_def)

lemma carried_hd:
  "c \<in> set (origin_stack b c) \<Longrightarrow> \<exists>rest. carried_group b c = c # rest"
  unfolding carried_group_def height_def
  by (metis (mono_tags, lifting) append_eq_conv_conj list.exhaust_sel hd_dropWhile
      dropWhile_eq_Nil_conv takeWhile_dropWhile_id)

lemma stack_or_none_stack [simp]: "field_stack (stack_or_none s) = s"
  by (simp add: stack_or_none_def)

lemma shift_index_other:
  "cp \<in> set (shift_index idx cs d) \<Longrightarrow> fst cp \<notin> set cs \<Longrightarrow> cp \<in> set idx"
  by (auto simp: shift_index_def)

lemma lift_lifted:
  assumes wf: "wf_stacks b" and c: "map_of (index b) c = Some p" and p: "p < 16"
    and e: "0 \<le> p + d"
  shows "lifted (lifted_fields b c p) (shift_index (index b) (carried_group b c) d)
           (carried_group b c) (p + d)"
proof -
  let ?cs = "carried_group b c" and ?lb = "left_behind b c" and ?os = "origin_stack b c"
  let ?fs = "lifted_fields b c p" and ?idx = "shift_index (index b) (carried_group b c) d"
  note o = wf_stacks_origin[OF wf c p]
  have p0: "0 \<le> p" using wf c by (rule wf_stacks_pos)
  have len: "length (fields b) = 16" using wf by (rule wf_stacks_length)
  have split: "?lb @ ?cs = ?os" by (rule carried_split)
  have dis: "distinct (?lb @ ?cs)" using o(3) split by simp
  have sub: "set ?cs \<subseteq> set ?os" "set ?lb \<subseteq> set ?os" using split by (metis set_append Un_upper2, metis set_append Un_upper1)
  have 1: "length ?fs = 16" using len by (simp add: lifted_fields_def)
  have 2: "distinct (map fst ?idx)" using wf by (simp add: wf_stacks_distinct)
  have 3: "?cs \<noteq> []" using carried_hd[OF o(2)] by auto
  have 4: "distinct ?cs" using dis by simp
  have 5: "\<forall>x \<in> set ?cs. map_of ?idx x = Some (p + d)"
    using o(4) sub by (auto simp: map_of_shift_index)
  have keep: "map_of ?idx x = map_of (index b) x" if "x \<notin> set ?cs" for x
    using that by (simp add: map_of_shift_index)
  have atp: "?fs ! nat p = stack_or_none ?lb"
    using len p p0 by (simp add: lifted_fields_def)
  have other: "?fs ! i = fields b ! i" if "i \<noteq> nat p" for i
    using that by (simp add: lifted_fields_def)
  have 6: "\<forall>cp \<in> set ?idx. fst cp \<notin> set ?cs \<longrightarrow> on_track ?fs cp"
  proof (intro ballI impI)
    fix cp assume cp: "cp \<in> set ?idx" and n: "fst cp \<notin> set ?cs"
    then have m: "cp \<in> set (index b)" by (rule shift_index_other)
    then have ot: "on_track (fields b) cp" using wf by (simp add: wf_stacks_def)
    show "on_track ?fs cp"
    proof (cases "snd cp = p")
      case True
      then have "fst cp \<in> set ?os" using ot p o(1) by (simp add: on_track_def)
      then have "fst cp \<in> set ?lb" using n split by (metis Un_iff set_append)
      then show ?thesis using True p p0 atp by (simp add: on_track_def)
    next
      case False
      then have "nat (snd cp) \<noteq> nat p" using ot p0 by (simp add: on_track_def eq_nat_nat_iff)
      then show ?thesis using ot other by (simp add: on_track_def)
    qed
  qed
  have 7: "stack_ok ?idx i (?fs ! i) \<and> set (field_stack (?fs ! i)) \<inter> set ?cs = {}"
    if i: "i < 16" for i
  proof (cases "i = nat p")
    case True
    have "\<forall>x \<in> set ?lb. map_of ?idx x = Some (int i)"
    proof
      fix x assume x: "x \<in> set ?lb"
      then have "x \<notin> set ?cs" using dis by auto
      then have "map_of ?idx x = map_of (index b) x" by (rule keep)
      then show "map_of ?idx x = Some (int i)" using o(4) sub x True p0 by auto
    qed
    moreover have "distinct ?lb" "set ?lb \<inter> set ?cs = {}" using dis by auto
    ultimately show ?thesis using True atp by (simp add: stack_ok_def stack_or_none_def)
  next
    case False
    then have eq: "?fs ! i = fields b ! i" by (rule other)
    show ?thesis
    proof (cases "fields b ! i")
      case (CamelStack s)
      from wf_stacks_stack[OF wf i CamelStack]
      have s: "s \<noteq> []" "distinct s" "\<forall>x \<in> set s. map_of (index b) x = Some (int i)" by auto
      have "int i \<noteq> p" using False by auto
      then have notin: "\<forall>x \<in> set s. x \<notin> set ?os" using s(3) o(4) by fastforce
      then have d: "set s \<inter> set ?cs = {}" using sub by auto
      then have "\<forall>x \<in> set s. map_of ?idx x = Some (int i)" using s(3) keep
        by (metis disjoint_iff)
      then show ?thesis using eq CamelStack s d by (simp add: stack_ok_def)
    qed (simp_all add: eq stack_ok_def)
  qed
  show ?thesis unfolding lifted_def using 1 2 3 4 5 6 7 e by simp
qed

lemma lifted_finish:
  assumes "lifted fs idx cs e" "16 \<le> e"
  shows "wf_stacks (Board fs idx)"
proof -
  have "on_track fs cp" if "cp \<in> set idx" for cp
  proof (cases "fst cp \<in> set cs")
    case True
    then have "map_of idx (fst cp) = Some e" using assms(1) by (simp add: lifted_def)
    moreover have "map_of idx (fst cp) = Some (snd cp)"
      using assms(1) that by (simp add: lifted_def)
    ultimately show ?thesis using assms(2) by (simp add: on_track_def)
  next
    case False
    then show ?thesis using assms(1) that by (simp add: lifted_def)
  qed
  then show ?thesis using assms(1) by (simp add: wf_stacks_def lifted_def)
qed

lemma lifted_land:
  assumes l: "lifted fs idx cs e" and e: "e < 16"
    and s: "set s = set (field_stack (fs ! nat e)) \<union> set cs" "distinct s"
  shows "wf_stacks (Board (fs[nat e := CamelStack s]) idx)"
proof -
  let ?fs = "fs[nat e := CamelStack s]"
  have len: "length fs = 16" and e0: "0 \<le> e" using l by (simp_all add: lifted_def)
  have ne: "nat e < 16" using e e0 by simp
  have at: "?fs ! nat e = CamelStack s" using len ne by simp
  have other: "?fs ! i = fs ! i" if "i \<noteq> nat e" for i using that by simp
  have cse: "\<forall>c \<in> set cs. map_of idx c = Some e" using l by (simp add: lifted_def)
  have oks: "stack_ok idx i (fs ! i)" if "i < 16" for i using l that by (simp add: lifted_def)
  have a: "on_track ?fs cp" if "cp \<in> set idx" for cp
  proof (cases "fst cp \<in> set cs")
    case True
    then have "map_of idx (fst cp) = Some e" using cse by simp
    moreover have "map_of idx (fst cp) = Some (snd cp)"
      using l that by (simp add: lifted_def)
    ultimately have "snd cp = e" by simp
    then show ?thesis using True e0 at s(1) by (simp add: on_track_def)
  next
    case False
    then have ot: "on_track fs cp" using l that by (simp add: lifted_def)
    show ?thesis
    proof (cases "snd cp = e")
      case True
      then show ?thesis using ot e at s(1) by (simp add: on_track_def)
    next
      case False
      then have "nat (snd cp) \<noteq> nat e" using ot e0 by (simp add: on_track_def eq_nat_nat_iff)
      then show ?thesis using ot other by (simp add: on_track_def)
    qed
  qed
  have b: "stack_ok idx i (?fs ! i)" if i: "i < 16" for i
  proof (cases "i = nat e")
    case True
    have "cs \<noteq> []" using l by (simp add: lifted_def)
    then have "s \<noteq> []" using s(1) by auto
    moreover have "\<forall>c \<in> set (field_stack (fs ! nat e)). map_of idx c = Some e"
      using oks[OF ne] e0 by (cases "fs ! nat e") (auto simp: stack_ok_def)
    then have "\<forall>c \<in> set s. map_of idx c = Some (int i)" using s(1) cse True e0 by auto
    ultimately show ?thesis using True at s(2) by (simp add: stack_ok_def)
  next
    case False
    then show ?thesis using oks[OF i] other by simp
  qed
  show ?thesis using a b l by (simp add: wf_stacks_def lifted_def)
qed

lemma copy_board_id [simp]: "copy_board b = b"
  by (simp add: copy_board_def)

lemma validate_items_ok:
  "length fs = 16 \<Longrightarrow> \<forall>cp \<in> set idx. on_track fs cp \<Longrightarrow> validate_items fs idx = Inr ()"
proof (induction idx)
  case Nil
  then show ?case by simp
next
  case (Cons cp idx)
  obtain c p where cp: "cp = (c, p)" by (cases cp)
  have ot: "0 \<le> p" "p < 16 \<longrightarrow> c \<in> set (field_stack (fs ! nat p))"
    using Cons.prems(2) cp by (simp_all add: on_track_def)
  have rest: "validate_items fs idx = Inr ()" using Cons by simp
  show ?case
  proof (cases "p < 16")
    case True
    with ot have "c \<in> set (field_stack (fs ! nat p))" by simp
    then have "fs ! nat p = CamelStack (field_stack (fs ! nat p))" by (rule field_stack_eq)
    then obtain s where s: "fs ! nat p = CamelStack s" "c \<in> set s"
      using \<open>c \<in> set (field_stack (fs ! nat p))\<close> by metis
    then show ?thesis using cp True ot(1) Cons.prems(1) rest
      by (simp add: BOARD_SIZE_def)
  next
    case False
    then show ?thesis using cp rest by (simp add: BOARD_SIZE_def)
  qed
qed

lemma validate_board_wf: "wf_stacks b \<Longrightarrow> validate_board b = Inr ()"
  by (simp add: validate_board_def wf_stacks_def validate_items_ok)

lemma apply_move_valid:
  "apply_move_body b m = Inr r \<Longrightarrow> wf_stacks (fst r) \<Longrightarrow> apply_move b m = Inr r"
  by (simp add: apply_move_def validate_board_wf)

lemma apply_move_error:
  "apply_move_body b m = Inl e \<Longrightarrow> apply_move b m = Inl e"
  by (simp add: apply_move_def)

lemma apply_move_body_subsequent:
  assumes wf: "wf_stacks b" and c: "map_of (index b) c = Some p" and p: "p < 16"
  shows "apply_move_body b (Move c n) =
    (let cs = carried_group b c; fs = lifted_fields b c p; e = p + n in
     if 16 \<le> e then Inr (Board fs (shift_index (index b) cs n), None, Some cs)
     else bind_err (list_get fs e) (\<lambda>dest.
       case dest of
         JumpField j ow \<Rightarrow>
           (if 16 \<le> e + jump_value j
            then Inr (Board fs (shift_index (index b) cs (n + jump_value j)), ow, Some cs)
            else if j = Backwards then
              bind_err (merge_beneath fs (e - 1) cs) (\<lambda>fs'.
                Inr (Board fs' (shift_index (index b) cs (n - 1)), ow, None))
            else
              bind_err (merge_top fs (e + 1) cs) (\<lambda>fs'.
                Inr (Board fs' (shift_index (index b) cs (n + 1)), ow, None)))
       | _ \<Rightarrow>
           bind_err (merge_top fs e cs) (\<lambda>fs'.
             Inr (Board fs' (shift_index (index b) cs n), None, None))))"
proof -
  note o = wf_stacks_origin[OF wf c p]
  have p0: "0 \<le> p" using wf c by (rule wf_stacks_pos)
  have len: "length (fields b) = 16" using wf by (rule wf_stacks_length)
  have g: "list_get (fields b) p = Inr (CamelStack (origin_stack b c))"
    using p p0 len o(1) by simp
  have h: "list_index (origin_stack b c) c = Inr (height b c)"
    using o(2) by (simp add: list_index_def height_def)
  have st: "list_set (fields b) p (stack_or_none (take (height b c) (origin_stack b c)))
      = Inr (lifted_fields b c p)"
    using p p0 len by (simp add: lifted_fields_def left_behind_def)
  have dk: "distinct (map fst (index b))" using wf by (rule wf_stacks_distinct)
  have sub: "set (carried_group b c) \<subseteq> set (origin_stack b c)"
    by (simp add: carried_group_def set_drop_subset)
  have dc: "distinct (carried_group b c)" using o(3) by (simp add: carried_group_def)
  have in1: "\<forall>x \<in> set (carried_group b c). map_of (index b) x \<noteq> None"
    using sub o(4) by auto
  have a1: "advance (index b) (carried_group b c) d = Inr (shift_index (index b) (carried_group b c) d)" for d
    using dk dc in1 by (rule advance_shift_index)
  have in2: "\<forall>x \<in> set (carried_group b c). map_of (shift_index (index b) (carried_group b c) n) x \<noteq> None"
    using in1 by (simp add: map_of_shift_index)
  have a2: "advance (shift_index (index b) (carried_group b c) n) (carried_group b c) d
      = Inr (shift_index (index b) (carried_group b c) (n + d))" for d
    using advance_shift_index[OF _ dc in2] dk by (simp add: shift_index_twice)
  have cg: "drop (height b c) (origin_stack b c) = carried_group b c"
    by (simp add: carried_group_def)
  note facts = c g h st a1 a2 cg Let_def BOARD_SIZE_def not_le
  show ?thesis
  proof (cases "list_get (lifted_fields b c p) (p + n)")
    case (Inl err)
    then show ?thesis unfolding apply_move_body_def by (simp add: facts)
  next
    case (Inr dest)
    show ?thesis
    proof (cases dest)
      case (JumpField j ow)
      with Inr show ?thesis unfolding apply_move_body_def
        by (cases j) (simp_all add: facts)
    qed (use Inr in \<open>simp_all add: apply_move_body_def facts\<close>)
  qed
qed

lemma merge_top_ok:
  "0 \<le> e \<Longrightarrow> e < int (length fs) \<Longrightarrow> \<not> is_jump (fs ! nat e) \<Longrightarrow>
   merge_top fs e cs = Inr (fs[nat e := CamelStack (field_stack (fs ! nat e) @ cs)])"
  by (cases "fs ! nat e") (simp_all add: merge_top_def)

lemma merge_beneath_ok:
  "0 \<le> e \<Longrightarrow> e < int (length fs) \<Longrightarrow> \<not> is_jump (fs ! nat e) \<Longrightarrow>
   merge_beneath fs e cs = Inr (fs[nat e := CamelStack (cs @ field_stack (fs ! nat e))])"
  by (cases "fs ! nat e") (simp_all add: merge_beneath_def)

lemma merge_top_jump:
  "0 \<le> e \<Longrightarrow> e < int (length fs) \<Longrightarrow> is_jump (fs ! nat e) \<Longrightarrow>
   merge_top fs e cs = Inl TypeError"
  by (cases "fs ! nat e") (simp_all add: merge_top_def)

lemma merge_beneath_jump:
  "0 \<le> e \<Longrightarrow> e < int (length fs) \<Longrightarrow> is_jump (fs ! nat e) \<Longrightarrow>
   merge_beneath fs e cs = Inl TypeError"
  by (cases "fs ! nat e") (simp_all add: merge_beneath_def)

lemma lifted_stack_distinct:
  assumes "lifted fs idx cs e" "e < 16"
  shows "distinct (field_stack (fs ! nat e) @ cs)" "distinct (cs @ field_stack (fs ! nat e))"
proof -
  have ne: "nat e < 16" using assms by (simp add: lifted_def)
  then have "stack_ok idx (nat e) (fs ! nat e)" "set (field_stack (fs ! nat e)) \<inter> set cs = {}"
    using assms(1) by (simp_all add: lifted_def)
  moreover have "distinct cs" using assms(1) by (simp add: lifted_def)
  moreover have "distinct (field_stack (fs ! nat e))"
    using calculation(1) by (cases "fs ! nat e") (simp_all add: stack_ok_def)
  ultimately show "distinct (field_stack (fs ! nat e) @ cs)"
    "distinct (cs @ field_stack (fs ! nat e))" by auto
qed

lemma lifted_land_top:
  "lifted fs idx cs e \<Longrightarrow> e < 16 \<Longrightarrow>
   wf_stacks (Board (fs[nat e := CamelStack (field_stack (fs ! nat e) @ cs)]) idx)"
  using lifted_stack_distinct(1)[of fs idx cs e] by (intro lifted_land) simp_all

lemma lifted_land_beneath:
  "lifted fs idx cs e \<Longrightarrow> e < 16 \<Longrightarrow>
   wf_stacks (Board (fs[nat e := CamelStack (cs @ field_stack (fs ! nat e))]) idx)"
  using lifted_stack_distinct(2)[of fs idx cs e] by (intro lifted_land) auto

lemma lifted_fields_length [simp]: "length (lifted_fields b c p) = length (fields b)"
  by (simp add: lifted_fields_def)

lemma lifted_fields_other:
  "i \<noteq> nat p \<Longrightarrow> lifted_fields b c p ! i = fields b ! i"
  by (simp add: lifted_fields_def)

text \<open>The group runs off the track before it meets a tile.\<close>

lemma move_finish:
  assumes wf: "wf_stacks b" and c: "map_of (index b) c = Some p" and p: "p < 16"
    and n: "0 < n" and e: "16 \<le> p + n"
  shows "apply_move b (Move c n) =
     Inr (Board (lifted_fields b c p) (shift_index (index b) (carried_group b c) n),
          None, Some (carried_group b c))"
proof -
  have p0: "0 \<le> p" using wf c by (rule wf_stacks_pos)
  have "lifted (lifted_fields b c p) (shift_index (index b) (carried_group b c) n)
     (carried_group b c) (p + n)"
    using wf c p by (rule lift_lifted) (use p0 n in simp)
  then have "wf_stacks (Board (lifted_fields b c p) (shift_index (index b) (carried_group b c) n))"
    using e by (rule lifted_finish)
  then show ?thesis using e
    by (intro apply_move_valid) (simp_all add: apply_move_body_subsequent[OF wf c p] Let_def)
qed

text \<open>The group lands on a field that holds no tile.\<close>

lemma move_direct:
  assumes wf: "wf_stacks b" and c: "map_of (index b) c = Some p" and p: "p < 16"
    and n: "0 < n" and e: "p + n < 16" and f: "\<not> is_jump (fields b ! nat (p + n))"
  shows "apply_move b (Move c n) =
     Inr (Board ((lifted_fields b c p)
                   [nat (p + n) := CamelStack (field_stack (fields b ! nat (p + n)) @ carried_group b c)])
                (shift_index (index b) (carried_group b c) n),
          None, None)"
proof -
  let ?fs = "lifted_fields b c p"
  have p0: "0 \<le> p" using wf c by (rule wf_stacks_pos)
  have len: "length (fields b) = 16" using wf by (rule wf_stacks_length)
  have ne: "nat (p + n) \<noteq> nat p" using p0 n by simp
  then have same: "?fs ! nat (p + n) = fields b ! nat (p + n)" by (rule lifted_fields_other)
  have l: "lifted ?fs (shift_index (index b) (carried_group b c) n) (carried_group b c) (p + n)"
    using wf c p by (rule lift_lifted) (use p0 n in simp)
  have w: "wf_stacks (Board (?fs[nat (p + n) := CamelStack (field_stack (?fs ! nat (p + n)) @ carried_group b c)])
      (shift_index (index b) (carried_group b c) n))"
    using l e by (rule lifted_land_top)
  have m: "merge_top ?fs (p + n) (carried_group b c) =
      Inr (?fs[nat (p + n) := CamelStack (field_stack (?fs ! nat (p + n)) @ carried_group b c)])"
    using p0 n e len f same by (intro merge_top_ok) simp_all
  have g: "list_get ?fs (p + n) = Inr (fields b ! nat (p + n))"
    using p0 n e len same by simp
  have "apply_move_body b (Move c n) =
     Inr (Board (?fs[nat (p + n) := CamelStack (field_stack (?fs ! nat (p + n)) @ carried_group b c)])
                (shift_index (index b) (carried_group b c) n), None, None)"
    using e f by (cases "fields b ! nat (p + n)")
      (simp_all add: apply_move_body_subsequent[OF wf c p] g m Let_def)
  then have "apply_move b (Move c n) =
     Inr (Board (?fs[nat (p + n) := CamelStack (field_stack (?fs ! nat (p + n)) @ carried_group b c)])
                (shift_index (index b) (carried_group b c) n), None, None)"
    using w by (intro apply_move_valid) simp_all
  then show ?thesis by (simp only: same)
qed

text \<open>The group lands on a tile on field 15 that pushes it off the track.\<close>

lemma move_tile_finish:
  assumes wf: "wf_stacks b" and c: "map_of (index b) c = Some p" and p: "p < 16"
    and n: "0 < n" and e: "p + n < 16" and f: "fields b ! nat (p + n) = JumpField j ow"
    and t: "16 \<le> p + n + jump_value j"
  shows "apply_move b (Move c n) =
     Inr (Board (lifted_fields b c p)
                (shift_index (index b) (carried_group b c) (n + jump_value j)),
          ow, Some (carried_group b c))"
proof -
  let ?fs = "lifted_fields b c p"
  have p0: "0 \<le> p" using wf c by (rule wf_stacks_pos)
  have len: "length (fields b) = 16" using wf by (rule wf_stacks_length)
  have ne: "nat (p + n) \<noteq> nat p" using p0 n by simp
  then have same: "?fs ! nat (p + n) = fields b ! nat (p + n)" by (rule lifted_fields_other)
  have g: "list_get ?fs (p + n) = Inr (JumpField j ow)"
    using p0 n e len same f by simp
  have "lifted ?fs (shift_index (index b) (carried_group b c) (n + jump_value j))
     (carried_group b c) (p + (n + jump_value j))"
    using wf c p by (rule lift_lifted) (use t in simp)
  then have "wf_stacks (Board ?fs (shift_index (index b) (carried_group b c) (n + jump_value j)))"
    by (rule lifted_finish) (use t in simp)
  then show ?thesis using e t
    by (intro apply_move_valid) (simp_all add: apply_move_body_subsequent[OF wf c p] g Let_def)
qed

text \<open>The group lands on a Backwards tile: it goes beneath whatever the field before holds.\<close>

lemma move_tile_backwards:
  assumes wf: "wf_stacks b" and c: "map_of (index b) c = Some p" and p: "p < 16"
    and n: "0 < n" and e: "p + n < 16" and f: "fields b ! nat (p + n) = JumpField Backwards ow"
  shows "apply_move b (Move c n) =
     (if is_jump (lifted_fields b c p ! nat (p + n - 1)) then Inl TypeError
      else Inr (Board ((lifted_fields b c p)
                   [nat (p + n - 1) :=
                      CamelStack (carried_group b c @ field_stack (lifted_fields b c p ! nat (p + n - 1)))])
                (shift_index (index b) (carried_group b c) (n - 1)),
          ow, None))"
proof -
  let ?fs = "lifted_fields b c p"
  have p0: "0 \<le> p" using wf c by (rule wf_stacks_pos)
  have len: "length (fields b) = 16" using wf by (rule wf_stacks_length)
  have ne: "nat (p + n) \<noteq> nat p" using p0 n by simp
  then have same: "?fs ! nat (p + n) = fields b ! nat (p + n)" by (rule lifted_fields_other)
  have g: "list_get ?fs (p + n) = Inr (JumpField Backwards ow)"
    using p0 n e len same f by simp
  have body: "apply_move_body b (Move c n) =
      bind_err (merge_beneath ?fs (p + n - 1) (carried_group b c)) (\<lambda>fs'.
        Inr (Board fs' (shift_index (index b) (carried_group b c) (n - 1)), ow, None))"
    using e by (simp add: apply_move_body_subsequent[OF wf c p] g Let_def)
  show ?thesis
  proof (cases "is_jump (?fs ! nat (p + n - 1))")
    case True
    then have "merge_beneath ?fs (p + n - 1) (carried_group b c) = Inl TypeError"
      using p0 n e len by (intro merge_beneath_jump) simp_all
    then show ?thesis using True body by (simp add: apply_move_error)
  next
    case False
    then have m: "merge_beneath ?fs (p + n - 1) (carried_group b c) =
        Inr (?fs[nat (p + n - 1) := CamelStack (carried_group b c @ field_stack (?fs ! nat (p + n - 1)))])"
      using p0 n e len by (intro merge_beneath_ok) simp_all
    have "lifted ?fs (shift_index (index b) (carried_group b c) (n - 1))
       (carried_group b c) (p + (n - 1))"
      using wf c p by (rule lift_lifted) (use p0 n in simp)
    then have "wf_stacks (Board (?fs[nat (p + (n - 1)) :=
          CamelStack (carried_group b c @ field_stack (?fs ! nat (p + (n - 1))))])
        (shift_index (index b) (carried_group b c) (n - 1)))"
      by (rule lifted_land_beneath) (use e in simp)
    then show ?thesis using False body m
      by (simp add: apply_move_valid add_diff_eq)
  qed
qed

text \<open>The group lands on a Forward tile: it goes on top of whatever the next field holds.\<close>

lemma move_tile_forward:
  assumes wf: "wf_stacks b" and c: "map_of (index b) c = Some p" and p: "p < 16"
    and n: "0 < n" and e: "p + n + 1 < 16" and f: "fields b ! nat (p + n) = JumpField Forward ow"
  shows "apply_move b (Move c n) =
     (if is_jump (fields b ! nat (p + n + 1)) then Inl TypeError
      else Inr (Board ((lifted_fields b c p)
                   [nat (p + n + 1) :=
                      CamelStack (field_stack (fields b ! nat (p + n + 1)) @ carried_group b c)])
                (shift_index (index b) (carried_group b c) (n + 1)),
          ow, None))"
proof -
  let ?fs = "lifted_fields b c p"
  have p0: "0 \<le> p" using wf c by (rule wf_stacks_pos)
  have len: "length (fields b) = 16" using wf by (rule wf_stacks_length)
  have ne: "nat (p + n) \<noteq> nat p" "nat (p + n + 1) \<noteq> nat p" using p0 n by simp_all
  then have same: "?fs ! nat (p + n) = fields b ! nat (p + n)"
    "?fs ! nat (p + n + 1) = fields b ! nat (p + n + 1)" by (simp_all add: lifted_fields_other)
  have g: "list_get ?fs (p + n) = Inr (JumpField Forward ow)"
    using p0 n e len same f by simp
  have body: "apply_move_body b (Move c n) =
      bind_err (merge_top ?fs (p + n + 1) (carried_group b c)) (\<lambda>fs'.
        Inr (Board fs' (shift_index (index b) (carried_group b c) (n + 1)), ow, None))"
    using e by (simp add: apply_move_body_subsequent[OF wf c p] g Let_def)
  show ?thesis
  proof (cases "is_jump (fields b ! nat (p + n + 1))")
    case True
    then have "merge_top ?fs (p + n + 1) (carried_group b c) = Inl TypeError"
      using p0 n e len same by (intro merge_top_jump) simp_all
    then show ?thesis using True body by (simp add: apply_move_error)
  next
    case False
    then have m: "merge_top ?fs (p + n + 1) (carried_group b c) =
        Inr (?fs[nat (p + n + 1) := CamelStack (field_stack (?fs ! nat (p + n + 1)) @ carried_group b c)])"
      using p0 n e len same by (intro merge_top_ok) simp_all
    have "lifted ?fs (shift_index (index b) (carried_group b c) (n + 1))
       (carried_group b c) (p + (n + 1))"
      using wf c p by (rule lift_lifted) (use p0 n in simp)
    then have "wf_stacks (Board (?fs[nat (p + (n + 1)) :=
          CamelStack (field_stack (?fs ! nat (p + (n + 1))) @ carried_group b c)])
        (shift_index (index b) (carried_group b c) (n + 1)))"
      by (rule lifted_land_top) (use e in simp)
    then show ?thesis using False body m same
      by (simp add: apply_move_valid add.assoc)
  qed
qed

lemma update_append:
  "map_of idx c = None \<Longrightarrow> AList.update c v idx = idx @ [(c, v)]"
  by (induction idx) (auto split: if_splits)

lemma map_of_append_new:
  "map_of idx c = None \<Longrightarrow>
   map_of (idx @ [(c, v)]) x = (if x = c then Some v else map_of idx x)"
  by (simp add: map_add_def split: option.split)

lemma not_indexed_not_stacked:
  assumes "wf_stacks b" "map_of (index b) c = None" "i < 16"
  shows "c \<notin> set (field_stack (fields b ! i))"
proof
  assume m: "c \<in> set (field_stack (fields b ! i))"
  then have "fields b ! i = CamelStack (field_stack (fields b ! i))" by (rule field_stack_eq)
  from wf_stacks_stack[OF assms(1,3) this] m have "map_of (index b) c = Some (int i)" by simp
  with assms(2) show False by simp
qed

lemma first_move_wf:
  assumes wf: "wf_stacks b" and c: "map_of (index b) c = None" and n: "0 < n" "n \<le> 16"
  shows "wf_stacks (Board ((fields b)[nat (n - 1) := CamelStack (field_stack (fields b ! nat (n - 1)) @ [c])])
            (index b @ [(c, n - 1)]))"
proof -
  let ?e = "nat (n - 1)"
  let ?s = "field_stack (fields b ! ?e) @ [c]"
  let ?fs = "(fields b)[?e := CamelStack ?s]" and ?idx = "index b @ [(c, n - 1)]"
  have len: "length (fields b) = 16" using wf by (rule wf_stacks_length)
  have e: "?e < 16" using n by simp
  have at: "?fs ! ?e = CamelStack ?s" using len e by simp
  have other: "?fs ! i = fields b ! i" if "i \<noteq> ?e" for i using that by simp
  have mo: "map_of ?idx x = (if x = c then Some (n - 1) else map_of (index b) x)" for x
    using c by (rule map_of_append_new)
  have 1: "distinct (map fst ?idx)"
    using wf_stacks_distinct[OF wf] c by (simp add: map_of_eq_None_iff)
  have 2: "on_track ?fs cp" if "cp \<in> set ?idx" for cp
  proof (cases "cp = (c, n - 1)")
    case True
    then show ?thesis using n at by (simp add: on_track_def)
  next
    case False
    then have "cp \<in> set (index b)" using that by simp
    then have ot: "on_track (fields b) cp" using wf by (simp add: wf_stacks_def)
    show ?thesis
    proof (cases "nat (snd cp) = ?e")
      case True
      then show ?thesis using ot at by (auto simp: on_track_def)
    next
      case False
      then show ?thesis using ot other by (simp add: on_track_def)
    qed
  qed
  have 3: "stack_ok ?idx i (?fs ! i)" if i: "i < 16" for i
  proof (cases "i = ?e")
    case True
    have nc: "c \<notin> set (field_stack (fields b ! ?e))"
      using wf c e by (rule not_indexed_not_stacked)
    have "stack_ok (index b) ?e (fields b ! ?e)" using wf e by (simp add: wf_stacks_def)
    then have "distinct (field_stack (fields b ! ?e))"
      "\<forall>x \<in> set (field_stack (fields b ! ?e)). map_of (index b) x = Some (int ?e)"
      by (cases "fields b ! ?e"; simp add: stack_ok_def)+
    then show ?thesis using True at nc n by (auto simp: stack_ok_def mo simp del: map_of_append)
  next
    case False
    have nc: "c \<notin> set (field_stack (fields b ! i))"
      using wf c i by (rule not_indexed_not_stacked)
    have "stack_ok (index b) i (fields b ! i)" using wf i by (simp add: wf_stacks_def)
    then show ?thesis using False other nc
      by (cases "fields b ! i") (auto simp: stack_ok_def mo simp del: map_of_append)
  qed
  show ?thesis using len 1 2 3 by (simp add: wf_stacks_def)
qed

text \<open>The first move of a camel.\<close>

lemma first_move:
  assumes wf: "wf_stacks b" and c: "map_of (index b) c = None" and n: "0 < n" "n \<le> 16"
  shows "apply_move b (Move c n) =
     (if is_jump (fields b ! nat (n - 1)) then Inl (AssertionError JumpAtStart)
      else Inr (Board ((fields b)[nat (n - 1) := CamelStack (field_stack (fields b ! nat (n - 1)) @ [c])])
                  (index b @ [(c, n - 1)]),
                None, None))"
proof -
  have len: "length (fields b) = 16" using wf by (rule wf_stacks_length)
  have g: "list_get (fields b) (n - 1) = Inr (fields b ! nat (n - 1))"
    using n len by simp
  have s: "list_set (fields b) (n - 1) v = Inr ((fields b)[nat (n - 1) := v])" for v
    using n len by simp
  have u: "AList.update c (n - 1) (index b) = index b @ [(c, n - 1)]"
    using c by (rule update_append)
  show ?thesis
  proof (cases "is_jump (fields b ! nat (n - 1))")
    case True
    then have "apply_move_body b (Move c n) = Inl (AssertionError JumpAtStart)"
      by (cases "fields b ! nat (n - 1)") (simp_all add: apply_move_body_def c g Let_def)
    then show ?thesis using True by (simp add: apply_move_error)
  next
    case False
    then have "apply_move_body b (Move c n) =
        Inr (Board ((fields b)[nat (n - 1) := CamelStack (field_stack (fields b ! nat (n - 1)) @ [c])])
                  (index b @ [(c, n - 1)]), None, None)"
      by (cases "fields b ! nat (n - 1)") (simp_all add: apply_move_body_def c g s u Let_def)
    then show ?thesis using False first_move_wf[OF wf c n]
      by (simp add: apply_move_valid)
  qed
qed

text \<open>Moving a camel that has left the track.\<close>

lemma move_finished:
  assumes wf: "wf_stacks b" and c: "map_of (index b) c = Some p" and p: "16 \<le> p"
  shows "apply_move b (Move c n) = Inl IndexError"
proof -
  have "length (fields b) = 16" using wf by (rule wf_stacks_length)
  then have "list_get (fields b) p = Inl IndexError" using p by simp
  then have "apply_move_body b (Move c n) = Inl IndexError"
    by (simp add: apply_move_body_def c)
  then show ?thesis by (rule apply_move_error)
qed

lemma lifted_of_move:
  assumes wf: "wf_stacks b" and c: "map_of (index b) c = Some p" and p: "p < 16"
    and d: "0 \<le> p + d"
  shows "16 \<le> p + d \<Longrightarrow>
      wf_stacks (Board (lifted_fields b c p) (shift_index (index b) (carried_group b c) d))"
    and "p + d < 16 \<Longrightarrow>
      wf_stacks (Board ((lifted_fields b c p)[nat (p + d) :=
          CamelStack (field_stack (lifted_fields b c p ! nat (p + d)) @ carried_group b c)])
        (shift_index (index b) (carried_group b c) d))"
    and "p + d < 16 \<Longrightarrow>
      wf_stacks (Board ((lifted_fields b c p)[nat (p + d) :=
          CamelStack (carried_group b c @ field_stack (lifted_fields b c p ! nat (p + d)))])
        (shift_index (index b) (carried_group b c) d))"
  using lift_lifted[OF wf c p d] lifted_finish lifted_land_top lifted_land_beneath by blast+

lemma apply_move_wf_stacks:
  assumes wf: "wf_stacks b" and n: "0 < steps m" "steps m \<le> 16"
    and r: "apply_move b m = Inr r"
  shows "wf_stacks (fst r)"
proof -
  obtain c k where m: "m = Move c k" by (cases m)
  have k: "0 < k" "k \<le> 16" using n m by simp_all
  show ?thesis
  proof (cases "map_of (index b) c")
    case None
    from first_move[OF wf None k] r m first_move_wf[OF wf None k]
    show ?thesis by (auto split: if_splits)
  next
    case (Some p)
    have p0: "0 \<le> p" using wf Some by (rule wf_stacks_pos)
    note lw = lifted_of_move[OF wf Some]
    consider (fin) "16 \<le> p" | (off) "p < 16" "16 \<le> p + k"
      | (on) "p < 16" "p + k < 16" by linarith
    then show ?thesis
    proof cases
      case fin
      with move_finished[OF wf Some] r m show ?thesis by simp
    next
      case off
      from move_finish[OF wf Some off(1) k(1) off(2)] r m lw(1)[OF off(1) _ off(2)] p0 k
      show ?thesis by auto
    next
      case on
      have same: "lifted_fields b c p ! nat (p + k) = fields b ! nat (p + k)"
        using p0 k by (intro lifted_fields_other) simp
      show ?thesis
      proof (cases "fields b ! nat (p + k)")
        case (JumpField j ow)
        show ?thesis
        proof (cases j)
          case Forward
          show ?thesis
          proof (cases "p + k + 1 < 16")
            case True
            have s2: "lifted_fields b c p ! nat (p + k + 1) = fields b ! nat (p + k + 1)"
              using p0 k by (intro lifted_fields_other) simp
            from move_tile_forward[OF wf Some on(1) k(1) True] JumpField Forward r m
              lw(2)[OF on(1), of "k + 1"] p0 k True s2
            show ?thesis by (auto simp: add.assoc split: if_splits)
          next
            case False
            from move_tile_finish[OF wf Some on(1) k(1) on(2), of j ow] JumpField Forward r m
              lw(1)[OF on(1), of "k + 1"] p0 k False
            show ?thesis by (auto simp: add.assoc)
          qed
        next
          case Backwards
          from move_tile_backwards[OF wf Some on(1) k(1) on(2)] JumpField Backwards r m
            lw(3)[OF on(1), of "k - 1"] p0 k on
          show ?thesis by (auto simp: add_diff_eq split: if_splits)
        qed
      next
        case EmptyField
        from move_direct[OF wf Some on(1) k(1) on(2)] EmptyField r m
          lw(2)[OF on(1), of k] p0 k on same
        show ?thesis by auto
      next
        case (CamelStack s)
        from move_direct[OF wf Some on(1) k(1) on(2)] CamelStack r m
          lw(2)[OF on(1), of k] p0 k on same
        show ?thesis by auto
      qed
    qed
  qed
qed

lemma filter_upt_single:
  "k < n \<Longrightarrow> \<forall>i < n. P i \<longleftrightarrow> i = k \<Longrightarrow> filter P [0..<n] = [k]"
proof (induction n)
  case 0
  then show ?case by simp
next
  case (Suc n)
  show ?case
  proof (cases "k = n")
    case True
    then have "filter P [0..<n] = []" using Suc.prems(2) by (auto simp: filter_empty_conv)
    then show ?thesis using True Suc.prems(2) by simp
  next
    case False
    then have "filter P [0..<n] = [k]" using Suc by auto
    then show ?thesis using False Suc.prems(2) by simp
  qed
qed

lemma wf_stacks_one_stack: "wf_stacks b \<Longrightarrow> indexed_in_one_stack b"
  unfolding indexed_in_one_stack_def
proof (intro ballI impI conjI)
  fix cp assume wf: "wf_stacks b" and cp: "cp \<in> set (index b)" and lt: "snd cp < 16"
  have mo: "map_of (index b) (fst cp) = Some (snd cp)"
    using wf_stacks_distinct[OF wf] cp by simp
  show p0: "0 \<le> snd cp" using wf mo by (rule wf_stacks_pos)
  have len: "length (fields b) = 16" using wf by (rule wf_stacks_length)
  have mem: "fst cp \<in> set (field_stack (fields b ! nat (snd cp)))"
    using wf mo lt by (rule wf_stacks_member)
  have "(fst cp \<in> set (field_stack (fields b ! i))) \<longleftrightarrow> i = nat (snd cp)" if "i < 16" for i
  proof
    assume m: "fst cp \<in> set (field_stack (fields b ! i))"
    then have "fields b ! i = CamelStack (field_stack (fields b ! i))" by (rule field_stack_eq)
    from wf_stacks_stack[OF wf that this] m have "map_of (index b) (fst cp) = Some (int i)"
      by simp
    with mo show "i = nat (snd cp)" by simp
  qed (use mem in simp)
  then show "stacks_holding (fields b) (fst cp) = [nat (snd cp)]"
    unfolding stacks_holding_def len using lt p0 by (intro filter_upt_single) auto
qed

section \<open>C2: the invariant is kept by every move\<close>

text \<open>
  Claim C2, as amended. On a board whose stacks and index agree (sixteen fields; every
  indexed camel with position below 16 stands in the stack of that field; every stack is
  non-empty, holds no camel twice and holds only camels that the index records on that
  field), every move with steps in \<open>{1, 2, 3}\<close> that does not fail returns a board
  on which stacks and index agree again; in particular every indexed camel with position
  below 16 occurs in exactly one stack, the one at its recorded position.
\<close>

theorem apply_move_keeps_invariant:
  assumes "wf_stacks b" and "steps m \<in> {1, 2, 3}"
    and "apply_move b m = Inr (b', ow, fin)"
  shows "wf_stacks b' \<and> indexed_in_one_stack b'"
proof -
  have "0 < steps m" "steps m \<le> 16" using assms(2) by auto
  from apply_move_wf_stacks[OF assms(1) this assms(3)] have "wf_stacks b'" by simp
  then show ?thesis by (simp add: wf_stacks_one_stack)
qed

theorem apply_move_keeps_invariant_witness:
  "wf_stacks (Board ((replicate 16 EmptyField)
       [3 := CamelStack [Yellow, White], 4 := JumpField Backwards (Some ''bob'')])
       [(Yellow, 3), (White, 3)]) \<and>
   steps (Move White 1) \<in> {1, 2, 3} \<and>
   apply_move (Board ((replicate 16 EmptyField)
       [3 := CamelStack [Yellow, White], 4 := JumpField Backwards (Some ''bob'')])
       [(Yellow, 3), (White, 3)]) (Move White 1) =
     Inr (Board ((replicate 16 EmptyField)
       [3 := CamelStack [White, Yellow], 4 := JumpField Backwards (Some ''bob'')])
       [(Yellow, 3), (White, 3)], Some ''bob'', None) \<and>
   wf_stacks (Board ((replicate 16 EmptyField)
       [3 := CamelStack [White, Yellow], 4 := JumpField Backwards (Some ''bob'')])
       [(Yellow, 3), (White, 3)]) \<and>
   indexed_in_one_stack (Board ((replicate 16 EmptyField)
       [3 := CamelStack [White, Yellow], 4 := JumpField Backwards (Some ''bob'')])
       [(Yellow, 3), (White, 3)])"
proof -
  let ?b = "Board ((replicate 16 EmptyField)
       [3 := CamelStack [Yellow, White], 4 := JumpField Backwards (Some ''bob'')])
       [(Yellow, 3), (White, 3)]"
  let ?b' = "Board ((replicate 16 EmptyField)
       [3 := CamelStack [White, Yellow], 4 := JumpField Backwards (Some ''bob'')])
       [(Yellow, 3), (White, 3)]"
  have w: "wf_stacks ?b" by code_simp
  have s: "steps (Move White 1) \<in> {1, 2, 3}" by simp
  have a: "apply_move ?b (Move White 1) = Inr (?b', Some ''bob'', None)" by code_simp
  from apply_move_keeps_invariant[OF w s a] w s a show ?thesis by simp
qed

text \<open>
  The property of the index alone is not kept: a camel that stands in a stack without
  being indexed is placed a second time by its first move.
\<close>

theorem one_stack_not_kept_counterexample:
  "indexed_in_one_stack (Board ((replicate 16 EmptyField)[5 := CamelStack [Yellow]]) []
      :: string Board) \<and>
   steps (Move Yellow 1) \<in> {1, 2, 3} \<and>
   apply_move (Board ((replicate 16 EmptyField)[5 := CamelStack [Yellow]]) [] :: string Board)
     (Move Yellow 1) =
     Inr (Board ((replicate 16 EmptyField)[0 := CamelStack [Yellow], 5 := CamelStack [Yellow]])
            [(Yellow, 0)], None, None) \<and>
   \<not> indexed_in_one_stack
       (Board ((replicate 16 EmptyField)[0 := CamelStack [Yellow], 5 := CamelStack [Yellow]])
            [(Yellow, 0)] :: string Board)"
  by code_simp

lemma wf_board_stacks: "wf_board b \<Longrightarrow> wf_stacks b"
  by (simp add: wf_board_def)

lemma tiles_apartD:
  "tiles_apart fs \<Longrightarrow> i < 15 \<Longrightarrow> is_jump (fs ! i) \<Longrightarrow> \<not> is_jump (fs ! Suc i)"
  "tiles_apart fs \<Longrightarrow> i < 15 \<Longrightarrow> is_jump (fs ! Suc i) \<Longrightarrow> \<not> is_jump (fs ! i)"
  by (auto simp: tiles_apart_def)

lemma lifted_fields_at:
  "0 \<le> p \<Longrightarrow> p < int (length (fields b)) \<Longrightarrow>
   lifted_fields b c p ! nat p = stack_or_none (left_behind b c)"
  by (simp add: lifted_fields_def)

lemma stack_or_none_no_jump [simp]: "\<not> is_jump (stack_or_none s)"
  by (simp add: stack_or_none_def)

lemma move_on_track:
  assumes wfb: "wf_board b" and c: "map_of (index b) c = Some p" and p: "p < 16"
    and n: "0 < n"
  shows "apply_move b (Move c n) =
     Inr (Board (landed_fields b c p n)
                (shift_index (index b) (carried_group b c) (landing b p n - p)),
          tile_owner b (p + n),
          if 16 \<le> landing b p n then Some (carried_group b c) else None)"
proof -
  have wf: "wf_stacks b" and ta: "tiles_apart (fields b)" using wfb by (simp_all add: wf_board_def)
  have p0: "0 \<le> p" using wf c by (rule wf_stacks_pos)
  have len: "length (fields b) = 16" using wf by (rule wf_stacks_length)
  show ?thesis
  proof (cases "16 \<le> p + n")
    case True
    then have "tile_shift b (p + n) = 0" "tile_owner b (p + n) = None"
      by (simp_all add: tile_shift_def tile_owner_def)
    then show ?thesis using move_finish[OF wf c p n True] True
      by (simp add: landing_def landed_fields_def Let_def)
  next
    case False
    then have e: "p + n < 16" by simp
    have e0: "0 \<le> p + n" using p0 n by simp
    have same: "lifted_fields b c p ! nat (p + n) = fields b ! nat (p + n)"
      using p0 n by (intro lifted_fields_other) simp
    show ?thesis
    proof (cases "fields b ! nat (p + n)")
      case EmptyField
      then have "tile_shift b (p + n) = 0" "tile_owner b (p + n) = None"
        using e e0 by (simp_all add: tile_shift_def tile_owner_def)
      then show ?thesis using move_direct[OF wf c p n e] EmptyField e same
        by (simp add: landing_def landed_fields_def Let_def)
    next
      case (CamelStack s)
      then have "tile_shift b (p + n) = 0" "tile_owner b (p + n) = None"
        using e e0 by (simp_all add: tile_shift_def tile_owner_def)
      then show ?thesis using move_direct[OF wf c p n e] CamelStack e same
        by (simp add: landing_def landed_fields_def Let_def)
    next
      case (JumpField j ow)
      then have ts: "tile_shift b (p + n) = jump_value j" "tile_owner b (p + n) = ow"
        using e e0 by (simp_all add: tile_shift_def tile_owner_def)
      have ij: "is_jump (fields b ! nat (p + n))" using JumpField by simp
      show ?thesis
      proof (cases j)
        case Backwards
        have "\<not> is_jump (lifted_fields b c p ! nat (p + n - 1))"
        proof (cases "n = 1")
          case True
          then show ?thesis using p0 p len by (simp add: lifted_fields_at)
        next
          case False
          then have "nat (p + n - 1) \<noteq> nat p" using p0 n by simp
          then have "lifted_fields b c p ! nat (p + n - 1) = fields b ! nat (p + n - 1)"
            by (rule lifted_fields_other)
          moreover have "Suc (nat (p + n - 1)) = nat (p + n)" "nat (p + n - 1) < 15"
            using p0 n e by simp_all
          ultimately show ?thesis using tiles_apartD(2)[OF ta, of "nat (p + n - 1)"] ij by simp
        qed
        then show ?thesis
          using move_tile_backwards[OF wf c p n e, of ow] JumpField Backwards ts e
          by (simp add: landing_def landed_fields_def add_diff_eq Let_def)
      next
        case Forward
        show ?thesis
        proof (cases "16 \<le> p + n + 1")
          case True
          then show ?thesis
            using move_tile_finish[OF wf c p n e, of j ow] JumpField Forward ts
            by (simp add: landing_def landed_fields_def Let_def)
        next
          case False
          then have e1: "p + n + 1 < 16" by simp
          have "Suc (nat (p + n)) = nat (p + n + 1)" "nat (p + n) < 15"
            using p0 n e1 by simp_all
          then have nj: "\<not> is_jump (fields b ! nat (p + n + 1))"
            using tiles_apartD(1)[OF ta, of "nat (p + n)"] ij by simp
          have "lifted_fields b c p ! nat (p + n + 1) = fields b ! nat (p + n + 1)"
            using p0 n by (intro lifted_fields_other) simp
          then show ?thesis
            using move_tile_forward[OF wf c p n e1, of ow] JumpField Forward ts e1 nj
            by (simp add: landing_def landed_fields_def Let_def)
        qed
      qed
    qed
  qed
qed

section \<open>C9: the failures of a move\<close>

text \<open>
  Claim C9, as amended. On a well-formed board and with steps in \<open>{1, 2, 3}\<close>: the first
  move of a camel (one absent from the index) fails exactly when field \<open>steps - 1\<close> holds
  a tile, with the \<^verbatim>\<open>Jump at start\<close> assertion, and otherwise puts the camel on top of
  the stack there, or alone on the empty field, and records position \<open>steps - 1\<close>; the
  move of an indexed camel with position below 16 succeeds; the move of an indexed camel
  with position 16 or more fails with an index error.
\<close>

theorem apply_move_failures:
  assumes "wf_board b" and "n \<in> {1, 2, 3}"
  shows "case map_of (index b) c of
           None \<Rightarrow>
             apply_move b (Move c n) =
               (if is_jump (fields b ! nat (n - 1)) then Inl (AssertionError JumpAtStart)
                else Inr (Board ((fields b)[nat (n - 1) :=
                                    CamelStack (field_stack (fields b ! nat (n - 1)) @ [c])])
                            (index b @ [(c, n - 1)]),
                          None, None))
         | Some p \<Rightarrow>
             if p < 16 then (\<exists>r. apply_move b (Move c n) = Inr r)
             else apply_move b (Move c n) = Inl IndexError"
proof -
  have wf: "wf_stacks b" using assms(1) by (rule wf_board_stacks)
  have n: "0 < n" "n \<le> 16" using assms(2) by auto
  show ?thesis
  proof (cases "map_of (index b) c")
    case None
    then show ?thesis using first_move[OF wf None n] by simp
  next
    case (Some p)
    show ?thesis
    proof (cases "p < 16")
      case True
      then show ?thesis using move_on_track[OF assms(1) Some True n(1)] Some by simp
    next
      case False
      then show ?thesis using move_finished[OF wf Some, of n] Some by simp
    qed
  qed
qed

theorem apply_move_failures_witness:
  "wf_board (Board [CamelStack [Yellow], JumpField Forward (Some ''bob''), EmptyField,
       EmptyField, EmptyField, CamelStack [Blue], EmptyField, EmptyField, EmptyField,
       EmptyField, EmptyField, EmptyField, EmptyField, EmptyField, EmptyField, EmptyField]
       [(Yellow, 0), (Blue, 5), (White, 16)]) \<and>
   (1 :: int) \<in> {1, 2, 3} \<and> (2 :: int) \<in> {1, 2, 3} \<and>
   apply_move (Board [CamelStack [Yellow], JumpField Forward (Some ''bob''), EmptyField,
       EmptyField, EmptyField, CamelStack [Blue], EmptyField, EmptyField, EmptyField,
       EmptyField, EmptyField, EmptyField, EmptyField, EmptyField, EmptyField, EmptyField]
       [(Yellow, 0), (Blue, 5), (White, 16)]) (Move Orange 1) =
     Inr (Board [CamelStack [Yellow, Orange], JumpField Forward (Some ''bob''), EmptyField,
       EmptyField, EmptyField, CamelStack [Blue], EmptyField, EmptyField, EmptyField,
       EmptyField, EmptyField, EmptyField, EmptyField, EmptyField, EmptyField, EmptyField]
       [(Yellow, 0), (Blue, 5), (White, 16), (Orange, 0)], None, None) \<and>
   apply_move (Board [CamelStack [Yellow], JumpField Forward (Some ''bob''), EmptyField,
       EmptyField, EmptyField, CamelStack [Blue], EmptyField, EmptyField, EmptyField,
       EmptyField, EmptyField, EmptyField, EmptyField, EmptyField, EmptyField, EmptyField]
       [(Yellow, 0), (Blue, 5), (White, 16)]) (Move Orange 2) =
     Inl (AssertionError JumpAtStart) \<and>
   (\<exists>r. apply_move (Board [CamelStack [Yellow], JumpField Forward (Some ''bob''), EmptyField,
       EmptyField, EmptyField, CamelStack [Blue], EmptyField, EmptyField, EmptyField,
       EmptyField, EmptyField, EmptyField, EmptyField, EmptyField, EmptyField, EmptyField]
       [(Yellow, 0), (Blue, 5), (White, 16)]) (Move Blue 1) = Inr r) \<and>
   apply_move (Board [CamelStack [Yellow], JumpField Forward (Some ''bob''), EmptyField,
       EmptyField, EmptyField, CamelStack [Blue], EmptyField, EmptyField, EmptyField,
       EmptyField, EmptyField, EmptyField, EmptyField, EmptyField, EmptyField, EmptyField]
       [(Yellow, 0), (Blue, 5), (White, 16)]) (Move White 1) = Inl IndexError"
proof -
  let ?b = "Board [CamelStack [Yellow], JumpField Forward (Some ''bob''), EmptyField,
       EmptyField, EmptyField, CamelStack [Blue], EmptyField, EmptyField, EmptyField,
       EmptyField, EmptyField, EmptyField, EmptyField, EmptyField, EmptyField, EmptyField]
       [(Yellow, 0), (Blue, 5), (White, 16)]"
  have w: "wf_board ?b" by code_simp
  have s1: "(1 :: int) \<in> {1, 2, 3}" and s2: "(2 :: int) \<in> {1, 2, 3}" by simp_all
  have a: "apply_move ?b (Move Orange 1) =
     Inr (Board [CamelStack [Yellow, Orange], JumpField Forward (Some ''bob''), EmptyField,
       EmptyField, EmptyField, CamelStack [Blue], EmptyField, EmptyField, EmptyField,
       EmptyField, EmptyField, EmptyField, EmptyField, EmptyField, EmptyField, EmptyField]
       [(Yellow, 0), (Blue, 5), (White, 16), (Orange, 0)], None, None)"
    using apply_move_failures[OF w s1, of Orange] by simp
  have b: "apply_move ?b (Move Orange 2) = Inl (AssertionError JumpAtStart)"
    using apply_move_failures[OF w s2, of Orange] by simp
  have c: "\<exists>r. apply_move ?b (Move Blue 1) = Inr r"
    using apply_move_failures[OF w s1, of Blue] by simp
  have d: "apply_move ?b (Move White 1) = Inl IndexError"
    using apply_move_failures[OF w s1, of White] by simp
  from w s1 s2 a b c d show ?thesis by blast
qed

text \<open>
  A carried camel that has left the track with its group can still be moved, and the
  move fails although it is no first move.
\<close>

theorem finished_camel_move_counterexample:
  "wf_board (Board [EmptyField, EmptyField, EmptyField, CamelStack [Blue], EmptyField,
       EmptyField, EmptyField, EmptyField, EmptyField, EmptyField, EmptyField, EmptyField,
       EmptyField, EmptyField, EmptyField, EmptyField]
       [(Yellow, 16), (White, 16), (Blue, 3)] :: string Board) \<and>
   (1 :: int) \<in> {1, 2, 3} \<and>
   map_of (index (Board [EmptyField, EmptyField, EmptyField, CamelStack [Blue], EmptyField,
       EmptyField, EmptyField, EmptyField, EmptyField, EmptyField, EmptyField, EmptyField,
       EmptyField, EmptyField, EmptyField, EmptyField]
       [(Yellow, 16), (White, 16), (Blue, 3)] :: string Board)) White = Some 16 \<and>
   apply_move (Board [EmptyField, EmptyField, EmptyField, CamelStack [Blue], EmptyField,
       EmptyField, EmptyField, EmptyField, EmptyField, EmptyField, EmptyField, EmptyField,
       EmptyField, EmptyField, EmptyField, EmptyField]
       [(Yellow, 16), (White, 16), (Blue, 3)] :: string Board) (Move White 1) = Inl IndexError"
  by code_simp

section \<open>C1: beneath after a Backwards tile, on top otherwise\<close>

text \<open>
  Claim C1. On a well-formed board, with steps in \<open>{1, 2, 3}\<close>, a group that comes to
  rest on a field holding a stack \<open>occ\<close> is merged with it as follows. After a Backwards
  tile the field before the tile receives the carried group followed by \<open>occ\<close>: the group
  is the new bottom, in its own order. After a direct landing, after a Forward tile, and
  on the first move of a camel, the field receives \<open>occ\<close> followed by the group: the
  group is on top. The occupants are those of the field once the group has been taken
  off its origin.
\<close>

theorem merge_order:
  assumes "wf_board b" and "n \<in> {1, 2, 3}"
  shows
    "(map_of (index b) c = Some p \<and> p + n < 16 \<and>
      fields b ! nat (p + n) = JumpField Backwards ow \<and>
      lifted_fields b c p ! nat (p + n - 1) = CamelStack occ \<longrightarrow>
      (\<exists>idx. apply_move b (Move c n) =
         Inr (Board ((lifted_fields b c p)[nat (p + n - 1) := CamelStack (carried_group b c @ occ)])
                idx, ow, None))) \<and>
     (map_of (index b) c = Some p \<and> p + n < 16 \<and>
      fields b ! nat (p + n) = CamelStack occ \<longrightarrow>
      (\<exists>idx. apply_move b (Move c n) =
         Inr (Board ((lifted_fields b c p)[nat (p + n) := CamelStack (occ @ carried_group b c)])
                idx, None, None))) \<and>
     (map_of (index b) c = Some p \<and> p + n + 1 < 16 \<and>
      fields b ! nat (p + n) = JumpField Forward ow \<and>
      fields b ! nat (p + n + 1) = CamelStack occ \<longrightarrow>
      (\<exists>idx. apply_move b (Move c n) =
         Inr (Board ((lifted_fields b c p)[nat (p + n + 1) := CamelStack (occ @ carried_group b c)])
                idx, ow, None))) \<and>
     (map_of (index b) c = None \<and> fields b ! nat (n - 1) = CamelStack occ \<longrightarrow>
      (\<exists>idx. apply_move b (Move c n) =
         Inr (Board ((fields b)[nat (n - 1) := CamelStack (occ @ [c])]) idx, None, None)))"
proof -
  have wf: "wf_stacks b" using assms(1) by (rule wf_board_stacks)
  have n: "0 < n" "n \<le> 16" using assms(2) by auto
  have p0: "0 \<le> p" if "map_of (index b) c = Some p" using wf that by (rule wf_stacks_pos)
  have 1: "\<exists>idx. apply_move b (Move c n) =
         Inr (Board ((lifted_fields b c p)[nat (p + n - 1) := CamelStack (carried_group b c @ occ)])
                idx, ow, None)"
    if "map_of (index b) c = Some p" "p + n < 16"
      "fields b ! nat (p + n) = JumpField Backwards ow"
      "lifted_fields b c p ! nat (p + n - 1) = CamelStack occ"
  proof -
    have "p < 16" using that(2) n by simp
    from move_tile_backwards[OF wf that(1) this n(1) that(2,3)] that(4)
    show ?thesis by simp
  qed
  have 2: "\<exists>idx. apply_move b (Move c n) =
         Inr (Board ((lifted_fields b c p)[nat (p + n) := CamelStack (occ @ carried_group b c)])
                idx, None, None)"
    if "map_of (index b) c = Some p" "p + n < 16" "fields b ! nat (p + n) = CamelStack occ"
  proof -
    have "p < 16" using that(2) n by simp
    from move_direct[OF wf that(1) this n(1) that(2)] that(3)
    show ?thesis by simp
  qed
  have 3: "\<exists>idx. apply_move b (Move c n) =
         Inr (Board ((lifted_fields b c p)[nat (p + n + 1) := CamelStack (occ @ carried_group b c)])
                idx, ow, None)"
    if "map_of (index b) c = Some p" "p + n + 1 < 16"
      "fields b ! nat (p + n) = JumpField Forward ow"
      "fields b ! nat (p + n + 1) = CamelStack occ"
  proof -
    have "p < 16" using that(2) n by simp
    from move_tile_forward[OF wf that(1) this n(1) that(2,3)] that(4)
    show ?thesis by simp
  qed
  have 4: "\<exists>idx. apply_move b (Move c n) =
         Inr (Board ((fields b)[nat (n - 1) := CamelStack (occ @ [c])]) idx, None, None)"
    if "map_of (index b) c = None" "fields b ! nat (n - 1) = CamelStack occ"
    using first_move[OF wf that(1) n] that(2) by simp
  from 1 2 3 4 show ?thesis by blast
qed

theorem merge_order_witness:
  "wf_board (Board [EmptyField, EmptyField, CamelStack [Blue, Orange], EmptyField,
       CamelStack [Yellow], JumpField Backwards (Some ''bob''), EmptyField,
       JumpField Forward (Some ''joe''), CamelStack [White], EmptyField, EmptyField,
       EmptyField, EmptyField, EmptyField, EmptyField, EmptyField]
       [(Blue, 2), (Orange, 2), (Yellow, 4), (White, 8)]) \<and>
   (2 :: int) \<in> {1, 2, 3} \<and> (3 :: int) \<in> {1, 2, 3} \<and>
   (\<exists>idx. apply_move (Board [EmptyField, EmptyField, CamelStack [Blue, Orange], EmptyField,
       CamelStack [Yellow], JumpField Backwards (Some ''bob''), EmptyField,
       JumpField Forward (Some ''joe''), CamelStack [White], EmptyField, EmptyField,
       EmptyField, EmptyField, EmptyField, EmptyField, EmptyField]
       [(Blue, 2), (Orange, 2), (Yellow, 4), (White, 8)]) (Move Blue 3) =
      Inr (Board [EmptyField, EmptyField, EmptyField, EmptyField,
       CamelStack [Blue, Orange, Yellow], JumpField Backwards (Some ''bob''), EmptyField,
       JumpField Forward (Some ''joe''), CamelStack [White], EmptyField, EmptyField,
       EmptyField, EmptyField, EmptyField, EmptyField, EmptyField] idx, Some ''bob'', None)) \<and>
   (\<exists>idx. apply_move (Board [EmptyField, EmptyField, CamelStack [Blue, Orange], EmptyField,
       CamelStack [Yellow], JumpField Backwards (Some ''bob''), EmptyField,
       JumpField Forward (Some ''joe''), CamelStack [White], EmptyField, EmptyField,
       EmptyField, EmptyField, EmptyField, EmptyField, EmptyField]
       [(Blue, 2), (Orange, 2), (Yellow, 4), (White, 8)]) (Move Orange 2) =
      Inr (Board [EmptyField, EmptyField, CamelStack [Blue], EmptyField,
       CamelStack [Yellow, Orange], JumpField Backwards (Some ''bob''), EmptyField,
       JumpField Forward (Some ''joe''), CamelStack [White], EmptyField, EmptyField,
       EmptyField, EmptyField, EmptyField, EmptyField, EmptyField] idx, None, None)) \<and>
   (\<exists>idx. apply_move (Board [EmptyField, EmptyField, CamelStack [Blue, Orange], EmptyField,
       CamelStack [Yellow], JumpField Backwards (Some ''bob''), EmptyField,
       JumpField Forward (Some ''joe''), CamelStack [White], EmptyField, EmptyField,
       EmptyField, EmptyField, EmptyField, EmptyField, EmptyField]
       [(Blue, 2), (Orange, 2), (Yellow, 4), (White, 8)]) (Move Yellow 3) =
      Inr (Board [EmptyField, EmptyField, CamelStack [Blue, Orange], EmptyField,
       EmptyField, JumpField Backwards (Some ''bob''), EmptyField,
       JumpField Forward (Some ''joe''), CamelStack [White, Yellow], EmptyField, EmptyField,
       EmptyField, EmptyField, EmptyField, EmptyField, EmptyField] idx, Some ''joe'', None)) \<and>
   (\<exists>idx. apply_move (Board [EmptyField, EmptyField, CamelStack [Blue, Orange], EmptyField,
       CamelStack [Yellow], JumpField Backwards (Some ''bob''), EmptyField,
       JumpField Forward (Some ''joe''), CamelStack [White], EmptyField, EmptyField,
       EmptyField, EmptyField, EmptyField, EmptyField, EmptyField]
       [(Blue, 2), (Orange, 2), (Yellow, 4), (White, 8)]) (Move Green 3) =
      Inr (Board [EmptyField, EmptyField, CamelStack [Blue, Orange, Green], EmptyField,
       CamelStack [Yellow], JumpField Backwards (Some ''bob''), EmptyField,
       JumpField Forward (Some ''joe''), CamelStack [White], EmptyField, EmptyField,
       EmptyField, EmptyField, EmptyField, EmptyField, EmptyField] idx, None, None))"
proof -
  let ?b = "Board [EmptyField, EmptyField, CamelStack [Blue, Orange], EmptyField,
       CamelStack [Yellow], JumpField Backwards (Some ''bob''), EmptyField,
       JumpField Forward (Some ''joe''), CamelStack [White], EmptyField, EmptyField,
       EmptyField, EmptyField, EmptyField, EmptyField, EmptyField]
       [(Blue, 2), (Orange, 2), (Yellow, 4), (White, 8)]"
  have w: "wf_board ?b" by code_simp
  have s2: "(2 :: int) \<in> {1, 2, 3}" and s3: "(3 :: int) \<in> {1, 2, 3}" by simp_all
  have a: "map_of (index ?b) Blue = Some 2 \<and> (2 :: int) + 3 < 16 \<and>
      fields ?b ! nat (2 + 3) = JumpField Backwards (Some ''bob'') \<and>
      lifted_fields ?b Blue 2 ! nat (2 + 3 - 1) = CamelStack [Yellow]" by code_simp
  have a': "(lifted_fields ?b Blue 2)[nat (2 + 3 - 1) := CamelStack (carried_group ?b Blue @ [Yellow])]
      = [EmptyField, EmptyField, EmptyField, EmptyField,
       CamelStack [Blue, Orange, Yellow], JumpField Backwards (Some ''bob''), EmptyField,
       JumpField Forward (Some ''joe''), CamelStack [White], EmptyField, EmptyField,
       EmptyField, EmptyField, EmptyField, EmptyField, EmptyField]" by code_simp
  have b: "map_of (index ?b) Orange = Some 2 \<and> (2 :: int) + 2 < 16 \<and>
      fields ?b ! nat (2 + 2) = CamelStack [Yellow]" by code_simp
  have b': "(lifted_fields ?b Orange 2)[nat (2 + 2) := CamelStack ([Yellow] @ carried_group ?b Orange)]
      = [EmptyField, EmptyField, CamelStack [Blue], EmptyField,
       CamelStack [Yellow, Orange], JumpField Backwards (Some ''bob''), EmptyField,
       JumpField Forward (Some ''joe''), CamelStack [White], EmptyField, EmptyField,
       EmptyField, EmptyField, EmptyField, EmptyField, EmptyField]" by code_simp
  have c: "map_of (index ?b) Yellow = Some 4 \<and> (4 :: int) + 3 + 1 < 16 \<and>
      fields ?b ! nat (4 + 3) = JumpField Forward (Some ''joe'') \<and>
      fields ?b ! nat (4 + 3 + 1) = CamelStack [White]" by code_simp
  have c': "(lifted_fields ?b Yellow 4)[nat (4 + 3 + 1) := CamelStack ([White] @ carried_group ?b Yellow)]
      = [EmptyField, EmptyField, CamelStack [Blue, Orange], EmptyField,
       EmptyField, JumpField Backwards (Some ''bob''), EmptyField,
       JumpField Forward (Some ''joe''), CamelStack [White, Yellow], EmptyField, EmptyField,
       EmptyField, EmptyField, EmptyField, EmptyField, EmptyField]" by code_simp
  have d: "map_of (index ?b) Green = None \<and>
      fields ?b ! nat (3 - 1) = CamelStack [Blue, Orange]" by code_simp
  have d': "(fields ?b)[nat (3 - 1) := CamelStack ([Blue, Orange] @ [Green])]
      = [EmptyField, EmptyField, CamelStack [Blue, Orange, Green], EmptyField,
       CamelStack [Yellow], JumpField Backwards (Some ''bob''), EmptyField,
       JumpField Forward (Some ''joe''), CamelStack [White], EmptyField, EmptyField,
       EmptyField, EmptyField, EmptyField, EmptyField, EmptyField]" by code_simp
  from merge_order[OF w s3, where c = Blue and p = 2 and ow = "Some ''bob''" and occ = "[Yellow]"] a
  have 1: "\<exists>idx. apply_move ?b (Move Blue 3) = Inr (Board [EmptyField, EmptyField, EmptyField, EmptyField,
       CamelStack [Blue, Orange, Yellow], JumpField Backwards (Some ''bob''), EmptyField,
       JumpField Forward (Some ''joe''), CamelStack [White], EmptyField, EmptyField,
       EmptyField, EmptyField, EmptyField, EmptyField, EmptyField] idx, Some ''bob'', None)"
    unfolding a' by blast
  from merge_order[OF w s2, where c = Orange and p = 2 and occ = "[Yellow]"] b
  have 2: "\<exists>idx. apply_move ?b (Move Orange 2) = Inr (Board [EmptyField, EmptyField, CamelStack [Blue], EmptyField,
       CamelStack [Yellow, Orange], JumpField Backwards (Some ''bob''), EmptyField,
       JumpField Forward (Some ''joe''), CamelStack [White], EmptyField, EmptyField,
       EmptyField, EmptyField, EmptyField, EmptyField, EmptyField] idx, None, None)"
    unfolding b' by blast
  from merge_order[OF w s3, where c = Yellow and p = 4 and ow = "Some ''joe''" and occ = "[White]"] c
  have 3: "\<exists>idx. apply_move ?b (Move Yellow 3) = Inr (Board [EmptyField, EmptyField, CamelStack [Blue, Orange], EmptyField,
       EmptyField, JumpField Backwards (Some ''bob''), EmptyField,
       JumpField Forward (Some ''joe''), CamelStack [White, Yellow], EmptyField, EmptyField,
       EmptyField, EmptyField, EmptyField, EmptyField, EmptyField] idx, Some ''joe'', None)"
    unfolding c' by blast
  from merge_order[OF w s3, where c = Green and occ = "[Blue, Orange]"] d
  have 4: "\<exists>idx. apply_move ?b (Move Green 3) = Inr (Board [EmptyField, EmptyField, CamelStack [Blue, Orange, Green], EmptyField,
       CamelStack [Yellow], JumpField Backwards (Some ''bob''), EmptyField,
       JumpField Forward (Some ''joe''), CamelStack [White], EmptyField, EmptyField,
       EmptyField, EmptyField, EmptyField, EmptyField, EmptyField] idx, None, None)"
    unfolding d' by blast
  from w s2 s3 1 2 3 4 show ?thesis by blast
qed

lemma landing_bounds:
  assumes "0 < n"
  shows "p + n - 1 \<le> landing b p n" "landing b p n \<le> p + n + 1"
    "16 \<le> p + n \<Longrightarrow> landing b p n = p + n"
proof -
  have "tile_shift b (p + n) \<in> {- 1, 0, 1}"
  proof (cases "0 \<le> p + n \<and> p + n < 16")
    case True
    then show ?thesis
      by (cases "fields b ! nat (p + n)")
         (auto simp: tile_shift_def split: Jump.split intro: jump_value.elims)
  next
    case False
    then show ?thesis by (auto simp: tile_shift_def)
  qed
  then show "p + n - 1 \<le> landing b p n" "landing b p n \<le> p + n + 1"
    by (auto simp: landing_def)
  show "16 \<le> p + n \<Longrightarrow> landing b p n = p + n"
    by (simp add: landing_def tile_shift_def)
qed

lemma landing_origin:
  assumes "0 < n" "landing b p n = p"
  shows "n = 1" "tile_shift b (p + n) = - 1"
  using assms landing_bounds(1)[OF assms(1), of p b] by (auto simp: landing_def)

lemma landed_fields_origin:
  assumes wf: "wf_stacks b" and c: "map_of (index b) c = Some p" and p: "p < 16"
    and n: "0 < n"
  shows "landing b p n \<noteq> p \<Longrightarrow> landed_fields b c p n ! nat p = stack_or_none (left_behind b c)"
    and "landing b p n = p \<Longrightarrow>
      landed_fields b c p n ! nat p = CamelStack (carried_group b c @ left_behind b c)"
proof -
  have p0: "0 \<le> p" using wf c by (rule wf_stacks_pos)
  have len: "length (fields b) = 16" using wf by (rule wf_stacks_length)
  have at: "lifted_fields b c p ! nat p = stack_or_none (left_behind b c)"
    using p0 p len by (simp add: lifted_fields_at)
  have lb: "p \<le> landing b p n" using landing_bounds(1)[OF n, of p b] n by simp
  show "landed_fields b c p n ! nat p = stack_or_none (left_behind b c)"
    if "landing b p n \<noteq> p"
  proof -
    have "nat (landing b p n) \<noteq> nat p" using that lb p0 by simp
    then show ?thesis using at by (simp add: landed_fields_def Let_def)
  qed
  show "landed_fields b c p n ! nat p = CamelStack (carried_group b c @ left_behind b c)"
    if "landing b p n = p"
    using that landing_origin[OF n that] at p p0 len
    by (simp add: landed_fields_def Let_def)
qed

lemma landed_fields_landing:
  assumes "length (fields b) = 16" "0 \<le> landing b p n" "landing b p n < 16"
  shows "\<exists>below above. landed_fields b c p n ! nat (landing b p n) =
           CamelStack (below @ carried_group b c @ above)"
proof (cases "tile_shift b (p + n) = - 1")
  case True
  then have "landed_fields b c p n ! nat (landing b p n) =
      CamelStack ([] @ carried_group b c @ field_stack (lifted_fields b c p ! nat (landing b p n)))"
    using assms by (simp add: landed_fields_def Let_def)
  then show ?thesis by blast
next
  case False
  then have "landed_fields b c p n ! nat (landing b p n) =
      CamelStack (field_stack (lifted_fields b c p ! nat (landing b p n)) @ carried_group b c @ [])"
    using assms by (simp add: landed_fields_def Let_def)
  then show ?thesis by blast
qed

lemma carried_index:
  assumes wf: "wf_stacks b" and c: "map_of (index b) c = Some p" and p: "p < 16"
  shows "x \<in> set (carried_group b c) \<Longrightarrow>
      map_of (shift_index (index b) (carried_group b c) d) x = Some (p + d)"
    and "x \<notin> set (carried_group b c) \<Longrightarrow>
      map_of (shift_index (index b) (carried_group b c) d) x = map_of (index b) x"
proof -
  note o = wf_stacks_origin[OF wf c p]
  have "set (carried_group b c) \<subseteq> set (origin_stack b c)"
    by (simp add: carried_group_def set_drop_subset)
  then show "x \<in> set (carried_group b c) \<Longrightarrow>
      map_of (shift_index (index b) (carried_group b c) d) x = Some (p + d)"
    using o(4) by (auto simp: map_of_shift_index)
  show "x \<notin> set (carried_group b c) \<Longrightarrow>
      map_of (shift_index (index b) (carried_group b c) d) x = map_of (index b) x"
    by (simp add: map_of_shift_index)
qed

section \<open>C3: the split of the stack\<close>

text \<open>
  Claim C3, as amended. On a well-formed board, the move by \<open>n \<in> {1, 2, 3}\<close> of an
  indexed camel \<open>c\<close> with position \<open>p\<close> below 16 succeeds, and: the stack on \<open>p\<close> is the
  camels left behind followed by the carried group, which starts with \<open>c\<close>; the recorded
  position of every carried camel becomes \<open>p + n\<close> plus the shift of the tile on
  \<open>p + n\<close>, if there is one, and no other recorded position changes; the camels left
  behind stay on \<open>p\<close>, which is empty when there are none, unless the group lands on \<open>p\<close>
  again (one step onto a Backwards tile), where it then stands beneath them; below 16 the
  landing field holds the carried group as one block in its order; from 16 on the carried
  group is returned as the finish group.
\<close>

theorem carry_split:
  assumes "wf_board b" and "map_of (index b) c = Some p" and "p < 16" and "n \<in> {1, 2, 3}"
  shows "\<exists>b' ow fin. apply_move b (Move c n) = Inr (b', ow, fin) \<and>
     fields b ! nat p = CamelStack (left_behind b c @ carried_group b c) \<and>
     (\<exists>above. carried_group b c = c # above) \<and>
     (\<forall>x \<in> set (carried_group b c).
        map_of (index b') x = Some (p + n + tile_shift b (p + n))) \<and>
     (\<forall>x. x \<notin> set (carried_group b c) \<longrightarrow> map_of (index b') x = map_of (index b) x) \<and>
     (landing b p n \<noteq> p \<longrightarrow> fields b' ! nat p = stack_or_none (left_behind b c)) \<and>
     (landing b p n = p \<longrightarrow>
        fields b' ! nat p = CamelStack (carried_group b c @ left_behind b c)) \<and>
     (landing b p n < 16 \<longrightarrow>
        (\<exists>below above. fields b' ! nat (landing b p n) =
           CamelStack (below @ carried_group b c @ above))) \<and>
     (16 \<le> landing b p n \<longrightarrow> fin = Some (carried_group b c))"
proof -
  have wf: "wf_stacks b" using assms(1) by (rule wf_board_stacks)
  have n: "0 < n" using assms(4) by auto
  have p0: "0 \<le> p" using wf assms(2) by (rule wf_stacks_pos)
  have len: "length (fields b) = 16" using wf by (rule wf_stacks_length)
  note o = wf_stacks_origin[OF wf assms(2,3)]
  have l0: "0 \<le> landing b p n" using landing_bounds(1)[OF n, of p b] p0 n by simp
  have d: "landing b p n - p = n + tile_shift b (p + n)" by (simp add: landing_def)
  let ?b' = "Board (landed_fields b c p n)
                (shift_index (index b) (carried_group b c) (landing b p n - p))"
  have "apply_move b (Move c n) =
     Inr (?b', tile_owner b (p + n),
          if 16 \<le> landing b p n then Some (carried_group b c) else None)"
    using assms(1,2,3) n by (rule move_on_track)
  moreover have "fields b ! nat p = CamelStack (left_behind b c @ carried_group b c)"
    using o(1) by (simp add: carried_split)
  moreover have "\<exists>above. carried_group b c = c # above" using o(2) by (rule carried_hd)
  moreover have "\<forall>x \<in> set (carried_group b c).
        map_of (index ?b') x = Some (p + n + tile_shift b (p + n))"
    using carried_index(1)[OF wf assms(2,3)] d by (simp add: add.assoc)
  moreover have "\<forall>x. x \<notin> set (carried_group b c) \<longrightarrow> map_of (index ?b') x = map_of (index b) x"
    using carried_index(2)[OF wf assms(2,3)] by simp
  moreover have "landing b p n \<noteq> p \<longrightarrow> fields ?b' ! nat p = stack_or_none (left_behind b c)"
    using landed_fields_origin(1)[OF wf assms(2,3) n] by simp
  moreover have "landing b p n = p \<longrightarrow>
        fields ?b' ! nat p = CamelStack (carried_group b c @ left_behind b c)"
    using landed_fields_origin(2)[OF wf assms(2,3) n] by simp
  moreover have "landing b p n < 16 \<longrightarrow>
        (\<exists>below above. fields ?b' ! nat (landing b p n) =
           CamelStack (below @ carried_group b c @ above))"
    using landed_fields_landing[OF len l0] by simp
  ultimately show ?thesis by simp
qed

theorem carry_split_witness:
  "wf_board (Board [EmptyField, EmptyField, CamelStack [Blue, Orange], EmptyField,
       CamelStack [Yellow], JumpField Backwards (Some ''bob''), EmptyField,
       JumpField Forward (Some ''joe''), CamelStack [White], EmptyField, EmptyField,
       EmptyField, EmptyField, EmptyField, EmptyField, EmptyField]
       [(Blue, 2), (Orange, 2), (Yellow, 4), (White, 8)]) \<and>
   map_of (index (Board [EmptyField, EmptyField, CamelStack [Blue, Orange], EmptyField,
       CamelStack [Yellow], JumpField Backwards (Some ''bob''), EmptyField,
       JumpField Forward (Some ''joe''), CamelStack [White], EmptyField, EmptyField,
       EmptyField, EmptyField, EmptyField, EmptyField, EmptyField]
       [(Blue, 2), (Orange, 2), (Yellow, 4), (White, 8)])) Blue = Some 2 \<and>
   (2 :: int) < 16 \<and> (3 :: int) \<in> {1, 2, 3} \<and>
   (\<exists>b' ow fin.
      apply_move (Board [EmptyField, EmptyField, CamelStack [Blue, Orange], EmptyField,
       CamelStack [Yellow], JumpField Backwards (Some ''bob''), EmptyField,
       JumpField Forward (Some ''joe''), CamelStack [White], EmptyField, EmptyField,
       EmptyField, EmptyField, EmptyField, EmptyField, EmptyField]
       [(Blue, 2), (Orange, 2), (Yellow, 4), (White, 8)]) (Move Blue 3) = Inr (b', ow, fin) \<and>
      map_of (index b') Blue = Some 4 \<and> map_of (index b') Orange = Some 4 \<and>
      map_of (index b') Yellow = Some 4 \<and> fields b' ! 2 = EmptyField \<and>
      (\<exists>below above. fields b' ! 4 = CamelStack (below @ [Blue, Orange] @ above)))"
proof -
  let ?b = "Board [EmptyField, EmptyField, CamelStack [Blue, Orange], EmptyField,
       CamelStack [Yellow], JumpField Backwards (Some ''bob''), EmptyField,
       JumpField Forward (Some ''joe''), CamelStack [White], EmptyField, EmptyField,
       EmptyField, EmptyField, EmptyField, EmptyField, EmptyField]
       [(Blue, 2), (Orange, 2), (Yellow, 4), (White, 8)]"
  have w: "wf_board ?b" by code_simp
  have m: "map_of (index ?b) Blue = Some 2" by code_simp
  have lt: "(2 :: int) < 16" and s: "(3 :: int) \<in> {1, 2, 3}" by simp_all
  have e: "carried_group ?b Blue = [Blue, Orange]" "left_behind ?b Blue = []"
    "tile_shift ?b (2 + 3) = - 1" "landing ?b 2 3 = 4" "map_of (index ?b) Yellow = Some 4"
    by code_simp+
  from carry_split[OF w m lt s] obtain b' ow fin where
    "apply_move ?b (Move Blue 3) = Inr (b', ow, fin)"
    "\<forall>x \<in> set (carried_group ?b Blue).
        map_of (index b') x = Some (2 + 3 + tile_shift ?b (2 + 3))"
    "\<forall>x. x \<notin> set (carried_group ?b Blue) \<longrightarrow> map_of (index b') x = map_of (index ?b) x"
    "landing ?b 2 3 \<noteq> 2 \<longrightarrow> fields b' ! nat 2 = stack_or_none (left_behind ?b Blue)"
    "landing ?b 2 3 < 16 \<longrightarrow>
        (\<exists>below above. fields b' ! nat (landing ?b 2 3) =
           CamelStack (below @ carried_group ?b Blue @ above))"
    by blast
  then have "apply_move ?b (Move Blue 3) = Inr (b', ow, fin) \<and>
      map_of (index b') Blue = Some 4 \<and> map_of (index b') Orange = Some 4 \<and>
      map_of (index b') Yellow = Some 4 \<and> fields b' ! 2 = EmptyField \<and>
      (\<exists>below above. fields b' ! 4 = CamelStack (below @ [Blue, Orange] @ above))"
    unfolding e by (simp add: stack_or_none_def)
  then show ?thesis using w m lt s by blast
qed

text \<open>
  A lone camel that steps onto a Backwards tile comes back to its origin, which is then
  not empty although no camel was left behind.
\<close>

theorem origin_not_empty_counterexample:
  "wf_board (Board [EmptyField, EmptyField, EmptyField, CamelStack [Yellow],
       JumpField Backwards (Some ''bob''), EmptyField, EmptyField, EmptyField, EmptyField,
       EmptyField, EmptyField, EmptyField, EmptyField, EmptyField, EmptyField, EmptyField]
       [(Yellow, 3)] :: string Board) \<and>
   map_of (index (Board [EmptyField, EmptyField, EmptyField, CamelStack [Yellow],
       JumpField Backwards (Some ''bob''), EmptyField, EmptyField, EmptyField, EmptyField,
       EmptyField, EmptyField, EmptyField, EmptyField, EmptyField, EmptyField, EmptyField]
       [(Yellow, 3)] :: string Board)) Yellow = Some 3 \<and>
   (1 :: int) \<in> {1, 2, 3} \<and>
   left_behind (Board [EmptyField, EmptyField, EmptyField, CamelStack [Yellow],
       JumpField Backwards (Some ''bob''), EmptyField, EmptyField, EmptyField, EmptyField,
       EmptyField, EmptyField, EmptyField, EmptyField, EmptyField, EmptyField, EmptyField]
       [(Yellow, 3)] :: string Board) Yellow = [] \<and>
   apply_move (Board [EmptyField, EmptyField, EmptyField, CamelStack [Yellow],
       JumpField Backwards (Some ''bob''), EmptyField, EmptyField, EmptyField, EmptyField,
       EmptyField, EmptyField, EmptyField, EmptyField, EmptyField, EmptyField, EmptyField]
       [(Yellow, 3)]) (Move Yellow 1) =
     Inr (Board [EmptyField, EmptyField, EmptyField, CamelStack [Yellow],
       JumpField Backwards (Some ''bob''), EmptyField, EmptyField, EmptyField, EmptyField,
       EmptyField, EmptyField, EmptyField, EmptyField, EmptyField, EmptyField, EmptyField]
       [(Yellow, 3)], Some ''bob'', None) \<and>
   fields (Board [EmptyField, EmptyField, EmptyField, CamelStack [Yellow],
       JumpField Backwards (Some ''bob''), EmptyField, EmptyField, EmptyField, EmptyField,
       EmptyField, EmptyField, EmptyField, EmptyField, EmptyField, EmptyField, EmptyField]
       [(Yellow, 3)] :: string Board) ! 3 \<noteq> EmptyField"
  by code_simp

lemma tile_shift_tile:
  "tile_shift b e \<noteq> 0 \<Longrightarrow> \<exists>j. fields b ! nat e = JumpField j (tile_owner b e)"
  by (cases "fields b ! nat e") (auto simp: tile_shift_def tile_owner_def split: if_splits)

lemma lifted_fields_no_carried:
  assumes wf: "wf_stacks b" and c: "map_of (index b) c = Some p" and p: "p < 16"
    and i: "i < 16" and x: "x \<in> set (carried_group b c)"
  shows "x \<notin> set (field_stack (lifted_fields b c p ! i))"
proof -
  have "0 \<le> p + 0" using wf_stacks_pos[OF wf c] by simp
  from lift_lifted[OF wf c p this]
  have "set (field_stack (lifted_fields b c p ! i)) \<inter> set (carried_group b c) = {}"
    using i by (simp add: lifted_def)
  then show ?thesis using x by auto
qed

section \<open>C4: the finish\<close>

text \<open>
  Claim C4, as amended. On a well-formed board, the move by \<open>n \<in> {1, 2, 3}\<close> of an
  indexed camel with position \<open>p\<close> below 16 succeeds, and it returns a finish group
  exactly when the final landing position (\<open>p + n\<close>, shifted by the tile on \<open>p + n\<close> if
  there is one) is 16 or more. The finish group is then the carried group, bottom first
  and not empty; every camel in it has a recorded position of 16 or more and stands in
  no stack of the returned board. No tile owner is returned when \<open>p + n\<close> is already 16
  or more; when only the tile's shift takes the group off the track, the owner of that
  tile is returned.
\<close>

theorem finish_detection:
  assumes "wf_board b" and "map_of (index b) c = Some p" and "p < 16" and "n \<in> {1, 2, 3}"
  shows "\<exists>b' ow fin. apply_move b (Move c n) = Inr (b', ow, fin) \<and>
     (fin \<noteq> None \<longleftrightarrow> 16 \<le> landing b p n) \<and>
     (16 \<le> landing b p n \<longrightarrow>
        fin = Some (carried_group b c) \<and> carried_group b c \<noteq> [] \<and>
        (\<forall>x \<in> set (carried_group b c).
           (\<exists>q. map_of (index b') x = Some q \<and> 16 \<le> q) \<and>
           (\<forall>i < 16. x \<notin> set (field_stack (fields b' ! i))))) \<and>
     (16 \<le> p + n \<longrightarrow> ow = None) \<and>
     (p + n < 16 \<and> 16 \<le> landing b p n \<longrightarrow>
        (\<exists>j. fields b ! nat (p + n) = JumpField j ow))"
proof -
  have wf: "wf_stacks b" using assms(1) by (rule wf_board_stacks)
  have n: "0 < n" using assms(4) by auto
  note o = wf_stacks_origin[OF wf assms(2,3)]
  let ?b' = "Board (landed_fields b c p n)
                (shift_index (index b) (carried_group b c) (landing b p n - p))"
  let ?ow = "tile_owner b (p + n)"
  let ?fin = "if 16 \<le> landing b p n then Some (carried_group b c) else None"
  have 1: "apply_move b (Move c n) = Inr (?b', ?ow, ?fin)"
    using assms(1,2,3) n by (rule move_on_track)
  have 2: "?fin \<noteq> None \<longleftrightarrow> 16 \<le> landing b p n" by simp
  have ne: "carried_group b c \<noteq> []" using carried_hd[OF o(2)] by auto
  have 3: "16 \<le> landing b p n \<longrightarrow>
        ?fin = Some (carried_group b c) \<and> carried_group b c \<noteq> [] \<and>
        (\<forall>x \<in> set (carried_group b c).
           (\<exists>q. map_of (index ?b') x = Some q \<and> 16 \<le> q) \<and>
           (\<forall>i < 16. x \<notin> set (field_stack (fields ?b' ! i))))"
  proof
    assume l: "16 \<le> landing b p n"
    then have f: "landed_fields b c p n = lifted_fields b c p"
      by (simp add: landed_fields_def Let_def)
    have "\<forall>x \<in> set (carried_group b c). map_of (index ?b') x = Some (landing b p n)"
      using carried_index(1)[OF wf assms(2,3), of _ "landing b p n - p"] by simp
    moreover have "\<forall>x \<in> set (carried_group b c). \<forall>i < 16.
        x \<notin> set (field_stack (fields ?b' ! i))"
      using lifted_fields_no_carried[OF wf assms(2,3)] f by simp
    ultimately show "?fin = Some (carried_group b c) \<and> carried_group b c \<noteq> [] \<and>
        (\<forall>x \<in> set (carried_group b c).
           (\<exists>q. map_of (index ?b') x = Some q \<and> 16 \<le> q) \<and>
           (\<forall>i < 16. x \<notin> set (field_stack (fields ?b' ! i))))"
      using l ne by simp
  qed
  have 4: "16 \<le> p + n \<longrightarrow> ?ow = None" by (simp add: tile_owner_def)
  have 5: "p + n < 16 \<and> 16 \<le> landing b p n \<longrightarrow>
        (\<exists>j. fields b ! nat (p + n) = JumpField j ?ow)"
  proof
    assume "p + n < 16 \<and> 16 \<le> landing b p n"
    then have "tile_shift b (p + n) \<noteq> 0" by (auto simp: landing_def)
    then show "\<exists>j. fields b ! nat (p + n) = JumpField j ?ow" by (rule tile_shift_tile)
  qed
  from 1 2 3 4 5 show ?thesis by blast
qed

theorem finish_detection_witness:
  "wf_board (Board [EmptyField, EmptyField, EmptyField, EmptyField, EmptyField, EmptyField,
       EmptyField, EmptyField, EmptyField, EmptyField, EmptyField, EmptyField, EmptyField,
       CamelStack [Green], CamelStack [Blue, Orange], JumpField Forward (Some ''joe'')]
       [(Green, 13), (Blue, 14), (Orange, 14)]) \<and>
   map_of (index (Board [EmptyField, EmptyField, EmptyField, EmptyField, EmptyField, EmptyField,
       EmptyField, EmptyField, EmptyField, EmptyField, EmptyField, EmptyField, EmptyField,
       CamelStack [Green], CamelStack [Blue, Orange], JumpField Forward (Some ''joe'')]
       [(Green, 13), (Blue, 14), (Orange, 14)])) Blue = Some 14 \<and>
   map_of (index (Board [EmptyField, EmptyField, EmptyField, EmptyField, EmptyField, EmptyField,
       EmptyField, EmptyField, EmptyField, EmptyField, EmptyField, EmptyField, EmptyField,
       CamelStack [Green], CamelStack [Blue, Orange], JumpField Forward (Some ''joe'')]
       [(Green, 13), (Blue, 14), (Orange, 14)])) Green = Some 13 \<and>
   (14 :: int) < 16 \<and> (13 :: int) < 16 \<and> (1 :: int) \<in> {1, 2, 3} \<and> (2 :: int) \<in> {1, 2, 3} \<and>
   (\<exists>b'. apply_move (Board [EmptyField, EmptyField, EmptyField, EmptyField, EmptyField, EmptyField,
       EmptyField, EmptyField, EmptyField, EmptyField, EmptyField, EmptyField, EmptyField,
       CamelStack [Green], CamelStack [Blue, Orange], JumpField Forward (Some ''joe'')]
       [(Green, 13), (Blue, 14), (Orange, 14)]) (Move Blue 1) = Inr (b', Some ''joe'', Some [Blue, Orange]) \<and>
      (\<exists>q. map_of (index b') Orange = Some q \<and> 16 \<le> q) \<and>
      Orange \<notin> set (field_stack (fields b' ! 14))) \<and>
   (\<exists>b'. apply_move (Board [EmptyField, EmptyField, EmptyField, EmptyField, EmptyField, EmptyField,
       EmptyField, EmptyField, EmptyField, EmptyField, EmptyField, EmptyField, EmptyField,
       CamelStack [Green], CamelStack [Blue, Orange], JumpField Forward (Some ''joe'')]
       [(Green, 13), (Blue, 14), (Orange, 14)]) (Move Blue 2) = Inr (b', None, Some [Blue, Orange])) \<and>
   (\<exists>b' ow. apply_move (Board [EmptyField, EmptyField, EmptyField, EmptyField, EmptyField, EmptyField,
       EmptyField, EmptyField, EmptyField, EmptyField, EmptyField, EmptyField, EmptyField,
       CamelStack [Green], CamelStack [Blue, Orange], JumpField Forward (Some ''joe'')]
       [(Green, 13), (Blue, 14), (Orange, 14)]) (Move Green 1) = Inr (b', ow, None))"
proof -
  let ?b = "Board [EmptyField, EmptyField, EmptyField, EmptyField, EmptyField, EmptyField,
       EmptyField, EmptyField, EmptyField, EmptyField, EmptyField, EmptyField, EmptyField,
       CamelStack [Green], CamelStack [Blue, Orange], JumpField Forward (Some ''joe'')]
       [(Green, 13), (Blue, 14), (Orange, 14)]"
  have w: "wf_board ?b" by code_simp
  have m: "map_of (index ?b) Blue = Some 14" and m': "map_of (index ?b) Green = Some 13"
    by code_simp+
  have lt: "(14 :: int) < 16" "(13 :: int) < 16"
    and s: "(1 :: int) \<in> {1, 2, 3}" "(2 :: int) \<in> {1, 2, 3}" by simp_all
  have e: "carried_group ?b Blue = [Blue, Orange]" "landing ?b 14 1 = 16" "landing ?b 14 2 = 16"
    "landing ?b 13 1 = 14" "fields ?b ! nat (14 + 1) = JumpField Forward (Some ''joe'')"
    by code_simp+
  from finish_detection[OF w m lt(1) s(1)] obtain b1 ow1 fin1 where
    "apply_move ?b (Move Blue 1) = Inr (b1, ow1, fin1)"
    "16 \<le> landing ?b 14 1 \<longrightarrow>
        fin1 = Some (carried_group ?b Blue) \<and> carried_group ?b Blue \<noteq> [] \<and>
        (\<forall>x \<in> set (carried_group ?b Blue).
           (\<exists>q. map_of (index b1) x = Some q \<and> 16 \<le> q) \<and>
           (\<forall>i < 16. x \<notin> set (field_stack (fields b1 ! i))))"
    "(14 :: int) + 1 < 16 \<and> 16 \<le> landing ?b 14 1 \<longrightarrow>
        (\<exists>j. fields ?b ! nat (14 + 1) = JumpField j ow1)"
    by blast
  then have 1: "\<exists>b'. apply_move ?b (Move Blue 1) = Inr (b', Some ''joe'', Some [Blue, Orange]) \<and>
      (\<exists>q. map_of (index b') Orange = Some q \<and> 16 \<le> q) \<and>
      Orange \<notin> set (field_stack (fields b' ! 14))"
    unfolding e by auto
  from finish_detection[OF w m lt(1) s(2)] obtain b2 ow2 fin2 where
    "apply_move ?b (Move Blue 2) = Inr (b2, ow2, fin2)"
    "16 \<le> landing ?b 14 2 \<longrightarrow> fin2 = Some (carried_group ?b Blue) \<and> carried_group ?b Blue \<noteq> [] \<and>
        (\<forall>x \<in> set (carried_group ?b Blue).
           (\<exists>q. map_of (index b2) x = Some q \<and> 16 \<le> q) \<and>
           (\<forall>i < 16. x \<notin> set (field_stack (fields b2 ! i))))"
    "16 \<le> (14 :: int) + 2 \<longrightarrow> ow2 = None"
    by blast
  then have 2: "\<exists>b'. apply_move ?b (Move Blue 2) = Inr (b', None, Some [Blue, Orange])"
    unfolding e by auto
  from finish_detection[OF w m' lt(2) s(1)] obtain b3 ow3 fin3 where
    "apply_move ?b (Move Green 1) = Inr (b3, ow3, fin3)"
    "fin3 \<noteq> None \<longleftrightarrow> 16 \<le> landing ?b 13 1"
    by blast
  then have 3: "\<exists>b' ow. apply_move ?b (Move Green 1) = Inr (b', ow, None)"
    unfolding e by auto
  from w m m' lt s 1 2 3 show ?thesis by blast
qed

text \<open>
  A camel beyond the track has a landing position of 16 or more whatever it does, and its
  move returns no finish group: it fails.
\<close>

theorem no_finish_group_counterexample:
  "wf_board (Board [EmptyField, EmptyField, EmptyField, EmptyField, EmptyField, CamelStack [Green],
       EmptyField, EmptyField, EmptyField, EmptyField, EmptyField, EmptyField, EmptyField,
       EmptyField, EmptyField, EmptyField]
       [(Orange, 17), (Green, 5)] :: string Board) \<and>
   map_of (index (Board [EmptyField, EmptyField, EmptyField, EmptyField, EmptyField, CamelStack [Green],
       EmptyField, EmptyField, EmptyField, EmptyField, EmptyField, EmptyField, EmptyField,
       EmptyField, EmptyField, EmptyField]
       [(Orange, 17), (Green, 5)] :: string Board)) Orange = Some 17 \<and>
   (2 :: int) \<in> {1, 2, 3} \<and>
   16 \<le> landing (Board [EmptyField, EmptyField, EmptyField, EmptyField, EmptyField, CamelStack [Green],
       EmptyField, EmptyField, EmptyField, EmptyField, EmptyField, EmptyField, EmptyField,
       EmptyField, EmptyField, EmptyField]
       [(Orange, 17), (Green, 5)] :: string Board) 17 2 \<and>
   apply_move (Board [EmptyField, EmptyField, EmptyField, EmptyField, EmptyField, CamelStack [Green],
       EmptyField, EmptyField, EmptyField, EmptyField, EmptyField, EmptyField, EmptyField,
       EmptyField, EmptyField, EmptyField]
       [(Orange, 17), (Green, 5)] :: string Board) (Move Orange 2) = Inl IndexError"
  by code_simp

lemma map_err_Inl:
  "x \<in> set xs \<Longrightarrow> f x = Inl e \<Longrightarrow> \<exists>e'. map_err f xs = Inl e'"
proof (induction xs)
  case Nil
  then show ?case by simp
next
  case (Cons y ys)
  show ?case
  proof (cases "f y")
    case (Inl e')
    then show ?thesis by simp
  next
    case (Inr v)
    show ?thesis
    proof (cases "x = y")
      case True
      with Cons.prems Inr show ?thesis by simp
    next
      case False
      with Cons obtain e' where "map_err f ys = Inl e'" by auto
      with Inr show ?thesis by simp
    qed
  qed
qed

lemma ranking_item_finished:
  assumes "16 \<le> p" "wn = None \<or> (\<exists>ws. wn = Some ws \<and> c \<notin> set ws)"
  shows "\<exists>e. ranking_item b wn (c, p) = Inl e"
  using assms by (auto simp: ranking_item_def BOARD_SIZE_def list_index_def)

lemma get_rankings_finished:
  assumes "map_of (index b) c = Some p" "16 \<le> p"
    "wn = None \<or> (\<exists>ws. wn = Some ws \<and> c \<notin> set ws)"
  shows "\<exists>e. get_rankings b wn = Inl e"
proof -
  have m: "(c, p) \<in> set (index b)" using assms(1) by (rule map_of_SomeD)
  from ranking_item_finished[OF assms(2,3)] obtain e where
    "ranking_item b wn (c, p) = Inl e" by blast
  from map_err_Inl[where f = "ranking_item b wn", OF m this]
  show ?thesis by (auto simp: get_rankings_def)
qed

section \<open>C10: no ranking without a finish order\<close>

text \<open>
  Claim C10. When the index records a position of 16 or more for some camel,
  \<^verbatim>\<open>get_rankings\<close> raises for \<^verbatim>\<open>wn = None\<close> and for every list of wn that
  does not contain that camel; so do \<^verbatim>\<open>evaluate_bets\<close> and the \<^verbatim>\<open>rank\<close> command, which
  pass \<^verbatim>\<open>None\<close>, on every such board.
\<close>

theorem rankings_need_finish_order:
  assumes "map_of (index b) c = Some p" and "16 \<le> p"
  shows "(\<exists>e. get_rankings b None = Inl e) \<and>
     (\<forall>ws. c \<notin> set ws \<longrightarrow> (\<exists>e. get_rankings b (Some ws) = Inl e)) \<and>
     (\<exists>e. evaluate_bets g b = Inl e) \<and>
     (board g = b \<longrightarrow> (\<exists>e. rank_command g = Inl e))"
proof -
  have 1: "\<exists>e. get_rankings b None = Inl e"
    using assms by (rule get_rankings_finished) simp
  have 2: "\<forall>ws. c \<notin> set ws \<longrightarrow> (\<exists>e. get_rankings b (Some ws) = Inl e)"
    using get_rankings_finished[OF assms] by simp
  from 1 have 3: "\<exists>e. evaluate_bets g b = Inl e" by (auto simp: evaluate_bets_def)
  from 1 have 4: "board g = b \<longrightarrow> (\<exists>e. rank_command g = Inl e)"
    by (auto simp: rank_command_def)
  from 1 2 3 4 show ?thesis by blast
qed

theorem rankings_need_finish_order_witness:
  "map_of (index (Board [EmptyField, EmptyField, EmptyField, CamelStack [Blue, Green],
       CamelStack [Orange], EmptyField, EmptyField, EmptyField, EmptyField, EmptyField,
       EmptyField, EmptyField, EmptyField, EmptyField, EmptyField, EmptyField]
       [(Yellow, 16), (White, 16), (Blue, 3), (Orange, 4), (Green, 3)] :: string Board))
     White = Some 16 \<and>
   (16 :: int) \<le> 16 \<and> White \<notin> set [Yellow] \<and>
   get_rankings (Board [EmptyField, EmptyField, EmptyField, CamelStack [Blue, Green],
       CamelStack [Orange], EmptyField, EmptyField, EmptyField, EmptyField, EmptyField,
       EmptyField, EmptyField, EmptyField, EmptyField, EmptyField, EmptyField]
       [(Yellow, 16), (White, 16), (Blue, 3), (Orange, 4), (Green, 3)] :: string Board)
     None = Inl AttributeError \<and>
   get_rankings (Board [EmptyField, EmptyField, EmptyField, CamelStack [Blue, Green],
       CamelStack [Orange], EmptyField, EmptyField, EmptyField, EmptyField, EmptyField,
       EmptyField, EmptyField, EmptyField, EmptyField, EmptyField, EmptyField]
       [(Yellow, 16), (White, 16), (Blue, 3), (Orange, 4), (Green, 3)] :: string Board)
     (Some [Yellow]) = Inl ValueError \<and>
   evaluate_bets (Game create_empty_board [(''joe'', Player 3 [Bet High White])] reset_bets [])
     (Board [EmptyField, EmptyField, EmptyField, CamelStack [Blue, Green],
       CamelStack [Orange], EmptyField, EmptyField, EmptyField, EmptyField, EmptyField,
       EmptyField, EmptyField, EmptyField, EmptyField, EmptyField, EmptyField]
       [(Yellow, 16), (White, 16), (Blue, 3), (Orange, 4), (Green, 3)]) =
     Inl AttributeError"
proof -
  let ?b = "Board [EmptyField, EmptyField, EmptyField, CamelStack [Blue, Green],
       CamelStack [Orange], EmptyField, EmptyField, EmptyField, EmptyField, EmptyField,
       EmptyField, EmptyField, EmptyField, EmptyField, EmptyField, EmptyField]
       [(Yellow, 16), (White, 16), (Blue, 3), (Orange, 4), (Green, 3)] :: string Board"
  let ?g = "Game create_empty_board [(''joe'', Player 3 [Bet High White])] reset_bets []
    :: string Game"
  have m: "map_of (index ?b) White = Some 16" by code_simp
  have p: "(16 :: int) \<le> 16" and n: "White \<notin> set [Yellow]" by simp_all
  from rankings_need_finish_order[OF m p, of ?g] n obtain e1 e2 e3 where
    e: "get_rankings ?b None = Inl e1" "get_rankings ?b (Some [Yellow]) = Inl e2"
      "evaluate_bets ?g ?b = Inl e3" by blast
  have "get_rankings ?b None = Inl AttributeError"
    "get_rankings ?b (Some [Yellow]) = Inl ValueError"
    "evaluate_bets ?g ?b = Inl AttributeError" by code_simp+
  with m p n e show ?thesis by blast
qed

lemma net_win_sum:
  "net_win f s bs acc = acc + sum_list (map (payoff f s) bs)"
  by (induction bs arbitrary: acc) (auto simp: payoff_def)

lemma update_append_right:
  "k \<notin> fst ` set xs \<Longrightarrow> AList.update k v (xs @ ys) = xs @ AList.update k v ys"
  by (induction xs) auto

lemma map_of_append_right:
  "k \<notin> fst ` set xs \<Longrightarrow> map_of (xs @ ys) k = map_of ys k"
  by (induction xs) auto

lemma settle_players_loop:
  fixes f s
  defines "upd \<equiv> \<lambda>np. (fst np,
      Player (max (balance (snd np) + net_win f s (owned_bets (snd np)) 0) 0)
             (owned_bets (snd np)))"
  assumes "distinct (map fst (dn @ items))"
  shows "settle_players f s items (map upd dn @ items) = Inr (map upd (dn @ items))"
  using assms(2)
proof (induction items arbitrary: dn)
  case Nil
  then show ?case by simp
next
  case (Cons item items)
  have k: "fst item \<notin> fst ` set (map upd dn)"
    using Cons.prems by (auto simp: upd_def image_iff)
  have g: "dict_get (map upd dn @ item # items) (fst item) = Inr (snd item)"
    using k by (simp add: dict_get_def map_of_append_right del: map_of_append)
  have u: "AList.update (fst item) v (map upd dn @ item # items)
      = map upd dn @ (fst item, v) # items" for v
    using k by (simp add: update_append_right)
  have "distinct (map fst ((dn @ [item]) @ items))" using Cons.prems by simp
  from Cons.IH[OF this]
  have "settle_players f s items (map upd dn @ upd item # items) =
      Inr (map upd (dn @ item # items))" by simp
  then show ?case
    by (simp add: change_balance_def g u) (simp add: upd_def)
qed

lemma settle_players_all:
  assumes "distinct (map fst ps)"
  shows "settle_players f s ps ps =
     Inr (map (\<lambda>np. (fst np,
            Player (max (balance (snd np) + sum_list (map (payoff f s) (owned_bets (snd np)))) 0)
                   (owned_bets (snd np)))) ps)"
  using settle_players_loop[of "[]" ps f s] assms by (simp add: net_win_sum)

lemma clear_jumps_nth:
  "i < length fs \<Longrightarrow> clear_jumps fs ! i = (if is_jump (fs ! i) then EmptyField else fs ! i)"
  by (cases "fs ! i") (simp_all add: clear_jumps_def)

lemma map_of_reset_bets: "map_of reset_bets c = Some [Low, Med, High]"
  by (cases c) (simp_all add: reset_bets_def all_camels_def)

lemma set_all_camels: "set all_camels = UNIV"
proof -
  have "c \<in> set all_camels" for c by (cases c) (simp_all add: all_camels_def)
  then show ?thesis by auto
qed

section \<open>C7: the settlement of a round\<close>

text \<open>
  Claim C7. When \<^verbatim>\<open>get_rankings(board, None)\<close> returns a ranking with \<open>first\<close> and
  \<open>second\<close> on top, \<^verbatim>\<open>evaluate_bets\<close> returns the game in which every player's balance is
  the old balance plus the sum over the player's wagers of the denomination for a wager
  on \<open>first\<close>, 1 for a wager on \<open>second\<close> and \<open>-1\<close> for any other, or 0 if that is
  negative; no player owns a wager; every tile is replaced by an empty field and nothing
  else on the board changes; every camel's pool is \<open>[Low, Med, High]\<close> again; and the
  camels left are all camels.
\<close>

theorem settlement:
  assumes "get_rankings b None = Inr (first # second # rest)"
    and "distinct (map fst (players g))"
  shows "evaluate_bets g b =
       Inr (Game (Board (clear_jumps (fields b)) (index b))
                 (map (\<lambda>np. (fst np, settled_player first second (snd np))) (players g))
                 reset_bets all_camels) \<and>
     (\<forall>i < length (fields b).
        clear_jumps (fields b) ! i = (if is_jump (fields b ! i) then EmptyField else fields b ! i)) \<and>
     length (clear_jumps (fields b)) = length (fields b) \<and>
     (\<forall>c. map_of reset_bets c = Some [Low, Med, High]) \<and>
     set all_camels = UNIV"
proof -
  have "evaluate_bets g b =
       Inr (Game (Board (clear_jumps (fields b)) (index b))
                 (map (\<lambda>np. (fst np, settled_player first second (snd np))) (players g))
                 reset_bets all_camels)"
    by (simp add: evaluate_bets_def assms(1) settle_players_all[OF assms(2)]
        settled_player_def comp_def)
  then show ?thesis
    by (simp add: clear_jumps_nth map_of_reset_bets set_all_camels) (simp add: clear_jumps_def)
qed

theorem settlement_witness:
  "get_rankings (Board [EmptyField, EmptyField, EmptyField, CamelStack [Yellow, White],
       JumpField Backwards (Some ''bob''), EmptyField, EmptyField, EmptyField, EmptyField,
       EmptyField, EmptyField, EmptyField, EmptyField, EmptyField,
       CamelStack [Blue, Orange, Green], EmptyField]
       [(Yellow, 3), (White, 3), (Blue, 14), (Orange, 14), (Green, 14)]) None = Inr [Green, Orange, Blue, White, Yellow] \<and>
   distinct (map fst [(''joe'', Player 3 [Bet High Green, Bet Low Orange, Bet Med Blue]),
           (''bob'', Player 0 [Bet Low Yellow])]) \<and>
   evaluate_bets (Game (Board [EmptyField, EmptyField, EmptyField, CamelStack [Yellow, White],
       JumpField Backwards (Some ''bob''), EmptyField, EmptyField, EmptyField, EmptyField,
       EmptyField, EmptyField, EmptyField, EmptyField, EmptyField,
       CamelStack [Blue, Orange, Green], EmptyField]
       [(Yellow, 3), (White, 3), (Blue, 14), (Orange, 14), (Green, 14)]) [(''joe'', Player 3 [Bet High Green, Bet Low Orange, Bet Med Blue]),
           (''bob'', Player 0 [Bet Low Yellow])] [] [Yellow]) (Board [EmptyField, EmptyField, EmptyField, CamelStack [Yellow, White],
       JumpField Backwards (Some ''bob''), EmptyField, EmptyField, EmptyField, EmptyField,
       EmptyField, EmptyField, EmptyField, EmptyField, EmptyField,
       CamelStack [Blue, Orange, Green], EmptyField]
       [(Yellow, 3), (White, 3), (Blue, 14), (Orange, 14), (Green, 14)]) =
     Inr (Game (Board [EmptyField, EmptyField, EmptyField, CamelStack [Yellow, White],
       EmptyField, EmptyField, EmptyField, EmptyField, EmptyField,
       EmptyField, EmptyField, EmptyField, EmptyField, EmptyField,
       CamelStack [Blue, Orange, Green], EmptyField]
       [(Yellow, 3), (White, 3), (Blue, 14), (Orange, 14), (Green, 14)]) [(''joe'', Player 8 []), (''bob'', Player 0 [])]
            [(Yellow, [Low, Med, High]), (White, [Low, Med, High]), (Blue, [Low, Med, High]),
             (Orange, [Low, Med, High]), (Green, [Low, Med, High])]
            [Yellow, White, Blue, Orange, Green])"
proof -
  let ?b = "Board [EmptyField, EmptyField, EmptyField, CamelStack [Yellow, White],
       JumpField Backwards (Some ''bob''), EmptyField, EmptyField, EmptyField, EmptyField,
       EmptyField, EmptyField, EmptyField, EmptyField, EmptyField,
       CamelStack [Blue, Orange, Green], EmptyField]
       [(Yellow, 3), (White, 3), (Blue, 14), (Orange, 14), (Green, 14)]"
  let ?g = "Game (Board [EmptyField, EmptyField, EmptyField, CamelStack [Yellow, White],
       JumpField Backwards (Some ''bob''), EmptyField, EmptyField, EmptyField, EmptyField,
       EmptyField, EmptyField, EmptyField, EmptyField, EmptyField,
       CamelStack [Blue, Orange, Green], EmptyField]
       [(Yellow, 3), (White, 3), (Blue, 14), (Orange, 14), (Green, 14)]) [(''joe'', Player 3 [Bet High Green, Bet Low Orange, Bet Med Blue]),
           (''bob'', Player 0 [Bet Low Yellow])] [] [Yellow]"
  have r: "get_rankings ?b None = Inr (Green # Orange # [Blue, White, Yellow])" by code_simp
  have d: "distinct (map fst (players ?g))" by code_simp
  have e: "Game (Board (clear_jumps (fields ?b)) (index ?b))
                 (map (\<lambda>np. (fst np, settled_player Green Orange (snd np))) (players ?g))
                 reset_bets all_camels =
     Game (Board [EmptyField, EmptyField, EmptyField, CamelStack [Yellow, White],
       EmptyField, EmptyField, EmptyField, EmptyField, EmptyField,
       EmptyField, EmptyField, EmptyField, EmptyField, EmptyField,
       CamelStack [Blue, Orange, Green], EmptyField]
       [(Yellow, 3), (White, 3), (Blue, 14), (Orange, 14), (Green, 14)]) [(''joe'', Player 8 []), (''bob'', Player 0 [])]
            [(Yellow, [Low, Med, High]), (White, [Low, Med, High]), (Blue, [Low, Med, High]),
             (Orange, [Low, Med, High]), (Green, [Low, Med, High])]
            [Yellow, White, Blue, Orange, Green]" by code_simp
  from settlement[OF r d] have "evaluate_bets ?g ?b =
       Inr (Game (Board (clear_jumps (fields ?b)) (index ?b))
                 (map (\<lambda>np. (fst np, settled_player Green Orange (snd np))) (players ?g))
                 reset_bets all_camels)" by blast
  then show ?thesis using r d unfolding e by simp
qed

lemma parse_place_ok:
  assumes len: "length (fields (board g)) = 16" and r: "parse_place g sign num = Inr pl"
  shows "position pl = int num - 1 \<and> jump pl = sign \<and>
     1 \<le> position pl \<and> position pl \<le> 15 \<and>
     fields (board g) ! nat (position pl) = EmptyField \<and>
     \<not> is_jump (fields (board g) ! nat (position pl - 1)) \<and>
     (position pl < 15 \<longrightarrow> \<not> is_jump (fields (board g) ! nat (position pl + 1)))"
proof -
  let ?pos = "int num - 1" and ?fs = "fields (board g)"
  have a: "?pos \<noteq> 0" "0 \<le> ?pos" "?pos < 16"
    using r by (auto simp: parse_place_def Let_def split: if_splits)
  then have g1: "list_get ?fs ?pos = Inr (?fs ! nat ?pos)"
    and g2: "list_get ?fs (?pos - 1) = Inr (?fs ! nat (?pos - 1))"
    using len by simp_all
  have g3: "list_get ?fs (?pos + 1) = Inr (?fs ! nat (?pos + 1))" if "?pos \<noteq> 15"
    using that a len by simp
  have e: "?fs ! nat ?pos = EmptyField"
    using r a g1 by (auto simp: parse_place_def Let_def split: if_splits)
  have l: "\<not> is_jump (?fs ! nat (?pos - 1))"
    using r a g1 g2 e
    by (cases "?fs ! nat (?pos - 1)") (auto simp: parse_place_def Let_def split: if_splits)
  have rr: "\<not> is_jump (?fs ! nat (?pos + 1))" if "?pos < 15"
  proof -
    have n15: "?pos \<noteq> 15" using that by simp
    show ?thesis using r a g1 g2 g3[OF n15] e l n15
      by (cases "?fs ! nat (?pos - 1)"; cases "?fs ! nat (?pos + 1)")
         (auto simp: parse_place_def Let_def split: if_splits)
  qed
  have p: "pl = Place ?pos sign"
    using r a g1 g2 e
    by (cases "?fs ! nat (?pos - 1)")
       (auto simp: parse_place_def Let_def bind_err_eq_Inr split: if_splits)
  show ?thesis using p a e l rr by auto
qed

section \<open>C8: where a placement is validated\<close>

text \<open>
  Claim C8, as amended. \<^verbatim>\<open>apply_action\<close> with a \<^verbatim>\<open>Place\<close> action validates nothing: for
  every position that indexes the field list it succeeds, overwrites that field with a
  tile of the given direction owned by the actor and changes nothing else. The placement
  rules are those of \<^verbatim>\<open>parse_place\<close> in the shell: every \<^verbatim>\<open>Place\<close> it returns on a
  board of sixteen fields has a position from 1 to 15 whose field is empty and whose
  neighbouring fields hold no tile.
\<close>

theorem placement_validation:
  "(0 \<le> position pl \<and> position pl < int (length (fields (board g))) \<longrightarrow>
      apply_action g (OwnedAction ow (PlaceAction pl)) =
        Inr (Game (Board ((fields (board g))[nat (position pl) := JumpField (jump pl) ow])
                         (index (board g)))
                  (players g) (bets g) (camels_left g),
             None)) \<and>
   (length (fields (board g)) = 16 \<and> parse_place g sign num = Inr pl \<longrightarrow>
      position pl = int num - 1 \<and> jump pl = sign \<and>
      1 \<le> position pl \<and> position pl \<le> 15 \<and>
      fields (board g) ! nat (position pl) = EmptyField \<and>
      \<not> is_jump (fields (board g) ! nat (position pl - 1)) \<and>
      (position pl < 15 \<longrightarrow> \<not> is_jump (fields (board g) ! nat (position pl + 1))))"
proof (rule conjI)
  show "0 \<le> position pl \<and> position pl < int (length (fields (board g))) \<longrightarrow>
      apply_action g (OwnedAction ow (PlaceAction pl)) =
        Inr (Game (Board ((fields (board g))[nat (position pl) := JumpField (jump pl) ow])
                         (index (board g)))
                  (players g) (bets g) (camels_left g),
             None)"
    by (simp add: apply_action_def)
  show "length (fields (board g)) = 16 \<and> parse_place g sign num = Inr pl \<longrightarrow>
      position pl = int num - 1 \<and> jump pl = sign \<and>
      1 \<le> position pl \<and> position pl \<le> 15 \<and>
      fields (board g) ! nat (position pl) = EmptyField \<and>
      \<not> is_jump (fields (board g) ! nat (position pl - 1)) \<and>
      (position pl < 15 \<longrightarrow> \<not> is_jump (fields (board g) ! nat (position pl + 1)))"
    using parse_place_ok[of g sign num pl] by blast
qed

theorem placement_validation_witness:
  "(0 :: int) \<le> position (Place 8 Forward) \<and>
   position (Place 8 Forward) < int (length (fields (board (Game (Board [CamelStack [Orange], EmptyField, EmptyField, CamelStack [Yellow, White],
       EmptyField, JumpField Backwards (Some ''bob''), EmptyField, EmptyField, EmptyField,
       EmptyField, EmptyField, EmptyField, EmptyField, EmptyField,
       CamelStack [Blue, Green], EmptyField]
       [(Yellow, 3), (White, 3), (Blue, 14), (Orange, 0), (Green, 14)]) [(''bob'', Player 3 []), (''joe'', Player 3 [])] reset_bets [Yellow, Blue])))) \<and>
   length (fields (board (Game (Board [CamelStack [Orange], EmptyField, EmptyField, CamelStack [Yellow, White],
       EmptyField, JumpField Backwards (Some ''bob''), EmptyField, EmptyField, EmptyField,
       EmptyField, EmptyField, EmptyField, EmptyField, EmptyField,
       CamelStack [Blue, Green], EmptyField]
       [(Yellow, 3), (White, 3), (Blue, 14), (Orange, 0), (Green, 14)]) [(''bob'', Player 3 []), (''joe'', Player 3 [])] reset_bets [Yellow, Blue]))) = 16 \<and>
   parse_place (Game (Board [CamelStack [Orange], EmptyField, EmptyField, CamelStack [Yellow, White],
       EmptyField, JumpField Backwards (Some ''bob''), EmptyField, EmptyField, EmptyField,
       EmptyField, EmptyField, EmptyField, EmptyField, EmptyField,
       CamelStack [Blue, Green], EmptyField]
       [(Yellow, 3), (White, 3), (Blue, 14), (Orange, 0), (Green, 14)]) [(''bob'', Player 3 []), (''joe'', Player 3 [])] reset_bets [Yellow, Blue]) Forward 9 = Inr (Place 8 Forward) \<and>
   apply_action (Game (Board [CamelStack [Orange], EmptyField, EmptyField, CamelStack [Yellow, White],
       EmptyField, JumpField Backwards (Some ''bob''), EmptyField, EmptyField, EmptyField,
       EmptyField, EmptyField, EmptyField, EmptyField, EmptyField,
       CamelStack [Blue, Green], EmptyField]
       [(Yellow, 3), (White, 3), (Blue, 14), (Orange, 0), (Green, 14)]) [(''bob'', Player 3 []), (''joe'', Player 3 [])] reset_bets [Yellow, Blue]) (OwnedAction (Some ''joe'') (PlaceAction (Place 8 Forward))) =
     Inr (Game (Board [CamelStack [Orange], EmptyField, EmptyField, CamelStack [Yellow, White],
       EmptyField, JumpField Backwards (Some ''bob''), EmptyField, EmptyField, JumpField Forward (Some ''joe''),
       EmptyField, EmptyField, EmptyField, EmptyField, EmptyField,
       CamelStack [Blue, Green], EmptyField]
       [(Yellow, 3), (White, 3), (Blue, 14), (Orange, 0), (Green, 14)]) [(''bob'', Player 3 []), (''joe'', Player 3 [])] reset_bets [Yellow, Blue], None) \<and>
   fields (board (Game (Board [CamelStack [Orange], EmptyField, EmptyField, CamelStack [Yellow, White],
       EmptyField, JumpField Backwards (Some ''bob''), EmptyField, EmptyField, EmptyField,
       EmptyField, EmptyField, EmptyField, EmptyField, EmptyField,
       CamelStack [Blue, Green], EmptyField]
       [(Yellow, 3), (White, 3), (Blue, 14), (Orange, 0), (Green, 14)]) [(''bob'', Player 3 []), (''joe'', Player 3 [])] reset_bets [Yellow, Blue])) ! 8 = EmptyField \<and>
   \<not> is_jump (fields (board (Game (Board [CamelStack [Orange], EmptyField, EmptyField, CamelStack [Yellow, White],
       EmptyField, JumpField Backwards (Some ''bob''), EmptyField, EmptyField, EmptyField,
       EmptyField, EmptyField, EmptyField, EmptyField, EmptyField,
       CamelStack [Blue, Green], EmptyField]
       [(Yellow, 3), (White, 3), (Blue, 14), (Orange, 0), (Green, 14)]) [(''bob'', Player 3 []), (''joe'', Player 3 [])] reset_bets [Yellow, Blue])) ! 7) \<and>
   \<not> is_jump (fields (board (Game (Board [CamelStack [Orange], EmptyField, EmptyField, CamelStack [Yellow, White],
       EmptyField, JumpField Backwards (Some ''bob''), EmptyField, EmptyField, EmptyField,
       EmptyField, EmptyField, EmptyField, EmptyField, EmptyField,
       CamelStack [Blue, Green], EmptyField]
       [(Yellow, 3), (White, 3), (Blue, 14), (Orange, 0), (Green, 14)]) [(''bob'', Player 3 []), (''joe'', Player 3 [])] reset_bets [Yellow, Blue])) ! 9)"
proof -
  let ?g = "Game (Board [CamelStack [Orange], EmptyField, EmptyField, CamelStack [Yellow, White],
       EmptyField, JumpField Backwards (Some ''bob''), EmptyField, EmptyField, EmptyField,
       EmptyField, EmptyField, EmptyField, EmptyField, EmptyField,
       CamelStack [Blue, Green], EmptyField]
       [(Yellow, 3), (White, 3), (Blue, 14), (Orange, 0), (Green, 14)]) [(''bob'', Player 3 []), (''joe'', Player 3 [])] reset_bets [Yellow, Blue]"
  have r: "0 \<le> position (Place 8 Forward) \<and>
      position (Place 8 Forward) < int (length (fields (board ?g)))" by code_simp
  have p: "length (fields (board ?g)) = 16 \<and> parse_place ?g Forward 9 = Inr (Place 8 Forward)"
    by code_simp
  have e: "Game (Board ((fields (board ?g))[nat (position (Place 8 Forward)) :=
              JumpField (jump (Place 8 Forward)) (Some ''joe'')]) (index (board ?g)))
            (players ?g) (bets ?g) (camels_left ?g) =
      Game (Board [CamelStack [Orange], EmptyField, EmptyField, CamelStack [Yellow, White],
       EmptyField, JumpField Backwards (Some ''bob''), EmptyField, EmptyField, JumpField Forward (Some ''joe''),
       EmptyField, EmptyField, EmptyField, EmptyField, EmptyField,
       CamelStack [Blue, Green], EmptyField]
       [(Yellow, 3), (White, 3), (Blue, 14), (Orange, 0), (Green, 14)]) [(''bob'', Player 3 []), (''joe'', Player 3 [])] reset_bets [Yellow, Blue]" by code_simp
  from placement_validation[of "Place 8 Forward" ?g "Some ''joe''" Forward 9] r
  have 1: "apply_action ?g (OwnedAction (Some ''joe'') (PlaceAction (Place 8 Forward))) =
        Inr (Game (Board ((fields (board ?g))[nat (position (Place 8 Forward)) :=
              JumpField (jump (Place 8 Forward)) (Some ''joe'')]) (index (board ?g)))
            (players ?g) (bets ?g) (camels_left ?g), None)" by blast
  from placement_validation[of "Place 8 Forward" ?g "Some ''joe''" Forward 9] p
  have 2: "fields (board ?g) ! nat (position (Place 8 Forward)) = EmptyField \<and>
      \<not> is_jump (fields (board ?g) ! nat (position (Place 8 Forward) - 1)) \<and>
      (position (Place 8 Forward) < 15 \<longrightarrow>
         \<not> is_jump (fields (board ?g) ! nat (position (Place 8 Forward) + 1)))" by blast
  then have 3: "fields (board ?g) ! 8 = EmptyField \<and> \<not> is_jump (fields (board ?g) ! 7) \<and>
      \<not> is_jump (fields (board ?g) ! 9)" by simp
  from r p 1 3 show ?thesis unfolding e by blast
qed

text \<open>
  The core accepts a tile on field 0, on a field that holds camels (which are lost) and
  next to another tile.
\<close>

theorem unchecked_placement_counterexample:
  "apply_action (Game (Board [CamelStack [Orange], EmptyField, EmptyField, CamelStack [Yellow, White],
       EmptyField, JumpField Backwards (Some ''bob''), EmptyField, EmptyField, EmptyField,
       EmptyField, EmptyField, EmptyField, EmptyField, EmptyField,
       CamelStack [Blue, Green], EmptyField]
       [(Yellow, 3), (White, 3), (Blue, 14), (Orange, 0), (Green, 14)]) [(''bob'', Player 3 []), (''joe'', Player 3 [])] reset_bets [Yellow, Blue]) (OwnedAction (Some ''joe'') (PlaceAction (Place 0 Forward))) =
     Inr (Game (Board [JumpField Forward (Some ''joe''), EmptyField, EmptyField, CamelStack [Yellow, White],
       EmptyField, JumpField Backwards (Some ''bob''), EmptyField, EmptyField, EmptyField,
       EmptyField, EmptyField, EmptyField, EmptyField, EmptyField,
       CamelStack [Blue, Green], EmptyField]
       [(Yellow, 3), (White, 3), (Blue, 14), (Orange, 0), (Green, 14)]) [(''bob'', Player 3 []), (''joe'', Player 3 [])] reset_bets [Yellow, Blue], None) \<and>
   apply_action (Game (Board [CamelStack [Orange], EmptyField, EmptyField, CamelStack [Yellow, White],
       EmptyField, JumpField Backwards (Some ''bob''), EmptyField, EmptyField, EmptyField,
       EmptyField, EmptyField, EmptyField, EmptyField, EmptyField,
       CamelStack [Blue, Green], EmptyField]
       [(Yellow, 3), (White, 3), (Blue, 14), (Orange, 0), (Green, 14)]) [(''bob'', Player 3 []), (''joe'', Player 3 [])] reset_bets [Yellow, Blue]) (OwnedAction (Some ''joe'') (PlaceAction (Place 3 Forward))) =
     Inr (Game (Board [CamelStack [Orange], EmptyField, EmptyField, JumpField Forward (Some ''joe''),
       EmptyField, JumpField Backwards (Some ''bob''), EmptyField, EmptyField, EmptyField,
       EmptyField, EmptyField, EmptyField, EmptyField, EmptyField,
       CamelStack [Blue, Green], EmptyField]
       [(Yellow, 3), (White, 3), (Blue, 14), (Orange, 0), (Green, 14)]) [(''bob'', Player 3 []), (''joe'', Player 3 [])] reset_bets [Yellow, Blue], None) \<and>
   apply_action (Game (Board [CamelStack [Orange], EmptyField, EmptyField, CamelStack [Yellow, White],
       EmptyField, JumpField Backwards (Some ''bob''), EmptyField, EmptyField, EmptyField,
       EmptyField, EmptyField, EmptyField, EmptyField, EmptyField,
       CamelStack [Blue, Green], EmptyField]
       [(Yellow, 3), (White, 3), (Blue, 14), (Orange, 0), (Green, 14)]) [(''bob'', Player 3 []), (''joe'', Player 3 [])] reset_bets [Yellow, Blue]) (OwnedAction (Some ''joe'') (PlaceAction (Place 4 Forward))) =
     Inr (Game (Board [CamelStack [Orange], EmptyField, EmptyField, CamelStack [Yellow, White],
       JumpField Forward (Some ''joe''), JumpField Backwards (Some ''bob''), EmptyField, EmptyField, EmptyField,
       EmptyField, EmptyField, EmptyField, EmptyField, EmptyField,
       CamelStack [Blue, Green], EmptyField]
       [(Yellow, 3), (White, 3), (Blue, 14), (Orange, 0), (Green, 14)]) [(''bob'', Player 3 []), (''joe'', Player 3 [])] reset_bets [Yellow, Blue], None) \<and>
   is_jump (fields (board (Game (Board [CamelStack [Orange], EmptyField, EmptyField, CamelStack [Yellow, White],
       EmptyField, JumpField Backwards (Some ''bob''), EmptyField, EmptyField, EmptyField,
       EmptyField, EmptyField, EmptyField, EmptyField, EmptyField,
       CamelStack [Blue, Green], EmptyField]
       [(Yellow, 3), (White, 3), (Blue, 14), (Orange, 0), (Green, 14)]) [(''bob'', Player 3 []), (''joe'', Player 3 [])] reset_bets [Yellow, Blue])) ! 5)"
  by code_simp

end
